theory Spec2Isabelle
  imports Complex_Main
begin

section \<open>Optimal experimental design: the battery aging model and the design constructors\<close>

text \<open>
  A shallow embedding of the calendar aging model
  (\<^verbatim>\<open>oed/parametric_function_library/aging_model.py\<close>) and of the two design
  constructors \<^verbatim>\<open>DDesign\<close> and \<^verbatim>\<open>PointPredictionDesign\<close>
  (\<^verbatim>\<open>src/oed/experiments/experiment_library\<close>).

  Conventions of the embedding.
  \<^item> A numpy float is a \<^typ>\<open>real\<close>: the theorems are about the formulas the code
    evaluates, not about rounding. numpy's \<^verbatim>\<open>**\<close> with a float exponent is
    \<open>powr\<close> and \<^verbatim>\<open>np.log\<close> is \<open>ln\<close>; the two agree with numpy on a
    positive base or argument, which is where the theorems about values are stated.
  \<^item> A one-dimensional array is a \<^typ>\<open>real list\<close>; a two-dimensional array is its
    shape together with its row-major buffer (record \<open>ndarray\<close> below).
  \<^item> A raised exception is a value \<open>Inl e\<close> of the sum type \<open>error + 'a\<close>.
\<close>

subsection \<open>Exceptions\<close>

datatype error = IndexError | ValueError | AttributeError | NotImplementedError

text \<open>Sequencing: the first exception raised ends the evaluation.\<close>

definition bind_err :: "error + 'a \<Rightarrow> ('a \<Rightarrow> error + 'b) \<Rightarrow> error + 'b" where
  "bind_err m f = (case m of Inl e \<Rightarrow> Inl e | Inr v \<Rightarrow> f v)"

text \<open>\<^verbatim>\<open>a[i]\<close> for a constant index \<open>i \<ge> 0\<close> into a one-dimensional array.\<close>

definition getitem :: "'a list \<Rightarrow> nat \<Rightarrow> error + 'a" where
  "getitem a i = (if i < length a then Inr (a ! i) else Inl IndexError)"

subsection \<open>Arrays\<close>

text \<open>
  A two-dimensional numpy array: its shape \<open>(nrows, ncols)\<close> and its buffer in row-major
  (C) order, so that entry \<open>(i, k)\<close> is \<open>buffer ! (i * ncols + k)\<close>. Keeping the shape
  beside the buffer lets an array with no rows still have a number of columns, as in numpy.
\<close>

record ndarray =
  nrows :: nat
  ncols :: nat
  buffer :: "real list"

definition well_shaped :: "ndarray \<Rightarrow> bool" where
  "well_shaped a = (length (buffer a) = nrows a * ncols a)"

definition row :: "ndarray \<Rightarrow> nat \<Rightarrow> real list" where
  "row a i = take (ncols a) (drop (i * ncols a) (buffer a))"

definition rows :: "ndarray \<Rightarrow> real list list" where
  "rows a = map (row a) [0..<nrows a]"

text \<open>
  \<^verbatim>\<open>a.reshape(n, d)\<close> of a one-dimensional array: numpy raises
  \<^verbatim>\<open>ValueError\<close> unless the array has exactly \<open>n * d\<close> entries.
\<close>

definition reshape :: "real list \<Rightarrow> nat \<Rightarrow> nat \<Rightarrow> error + ndarray" where
  "reshape a n d =
     (if length a = n * d then Inr \<lparr>nrows = n, ncols = d, buffer = a\<rparr> else Inl ValueError)"

text \<open>
  \<^verbatim>\<open>np.concatenate((a, b), axis=0)\<close> of two-dimensional arrays: the rows of
  \<open>b\<close> after the rows of \<open>a\<close>; numpy raises \<^verbatim>\<open>ValueError\<close> when the numbers
  of columns differ.
\<close>

definition concatenate :: "ndarray \<Rightarrow> ndarray \<Rightarrow> error + ndarray" where
  "concatenate a b =
     (if ncols a = ncols b
      then Inr \<lparr>nrows = nrows a + nrows b, ncols = ncols a, buffer = buffer a @ buffer b\<rparr>
      else Inl ValueError)"

text \<open>
  \<^verbatim>\<open>a - b\<close> of one-dimensional arrays, with numpy's broadcasting of an array of
  length one (a scalar output is an array of length one here).
\<close>

definition subtract :: "real list \<Rightarrow> real list \<Rightarrow> error + real list" where
  "subtract a b =
     (if length a = length b then Inr (map2 (\<lambda>u v. u - v) a b)
      else if length b = 1 then Inr (map (\<lambda>u. u - hd b) a)
      else if length a = 1 then Inr (map (\<lambda>v. hd a - v) b)
      else Inl ValueError)"

subsection \<open>The interfaces the design constructors call\<close>

text \<open>
  The constructors receive a \<^verbatim>\<open>Minimizer\<close>, a \<^verbatim>\<open>StatisticalModel\<close> and a
  \<^verbatim>\<open>ParametricFunctionWithUncertainty\<close> as arguments and call one method of each.
  Each is a parameter of the model: a minimizer is any function of the objective and the
  two bound vectors (\<^verbatim>\<open>function\<close>, \<^verbatim>\<open>lower_bounds\<close>,
  \<^verbatim>\<open>upper_bounds\<close>), and an exception raised inside it, or inside the objective it
  evaluates, is an \<open>Inl\<close> result.
\<close>

type_synonym Minimizer =
  "(real list \<Rightarrow> error + real) \<Rightarrow> real list \<Rightarrow> real list \<Rightarrow> error + real list"

record StatisticalModel =
  calculate_determinant_fisher_information_matrix :: "real list \<Rightarrow> ndarray \<Rightarrow> error + real"

record ParametricFunctionWithUncertainty =
  calculate_quantile :: "real list \<Rightarrow> real \<Rightarrow> error + real list"

subsection \<open>The D-optimal design\<close>

text \<open>
  The objective of \<^verbatim>\<open>DDesign.__init__\<close>, the \<^verbatim>\<open>lambda x\<close> of the source:
  the candidate vector is reshaped to \<open>number_designs\<close> rows, appended to the previous
  experiment, and the determinant of the Fisher information matrix there is negated.
\<close>

definition DDesign_function ::
    "nat \<Rightarrow> real list \<Rightarrow> real list \<Rightarrow> StatisticalModel \<Rightarrow> ndarray \<Rightarrow> real list \<Rightarrow> error + real" where
  "DDesign_function number_designs lower_bounds_design initial_theta statistical_model
       previous_experiment x =
     bind_err (reshape x number_designs (length lower_bounds_design)) (\<lambda>new_points.
     bind_err (concatenate previous_experiment new_points) (\<lambda>x0.
     bind_err (calculate_determinant_fisher_information_matrix statistical_model initial_theta x0)
       (\<lambda>determinant. Inr (- determinant))))"

text \<open>
  The bound vectors of the call,
  \<^verbatim>\<open>np.array(lower_bounds_design.tolist() * number_designs)\<close>: a Python list
  times \<open>n\<close> is \<open>n\<close> copies of it, one after the other.
\<close>

definition DDesign_bounds :: "nat \<Rightarrow> real list \<Rightarrow> real list" where
  "DDesign_bounds number_designs bounds_design = concat (replicate number_designs bounds_design)"

text \<open>
  \<^verbatim>\<open>DDesign.__init__\<close>; the result is the value stored in \<^verbatim>\<open>self._design\<close>,
  which the property \<^verbatim>\<open>experiment\<close> returns. \<open>previous_experiment\<close> is
  \<open>None\<close> for Python's \<^verbatim>\<open>None\<close> (the default) and \<open>Some a\<close> for an experiment
  whose \<^verbatim>\<open>experiment\<close> property is the array \<open>a\<close>. The first element of the tuple
  given to \<^verbatim>\<open>np.concatenate\<close>, \<^verbatim>\<open>previous_experiment.experiment\<close>, is
  evaluated before the minimizer is called. The \<^verbatim>\<open>print\<close> calls and the array built
  and dropped on the line before have no effect on the result.
\<close>

definition DDesign ::
    "nat \<Rightarrow> real list \<Rightarrow> real list \<Rightarrow> real list \<Rightarrow> StatisticalModel \<Rightarrow> Minimizer
       \<Rightarrow> ndarray option \<Rightarrow> error + ndarray" where
  "DDesign number_designs lower_bounds_design upper_bounds_design initial_theta
       statistical_model minimizer previous_experiment =
     (case previous_experiment of
        None \<Rightarrow> Inl AttributeError
      | Some experiment \<Rightarrow>
          bind_err
            (minimizer
               (DDesign_function number_designs lower_bounds_design initial_theta
                  statistical_model experiment)
               (DDesign_bounds number_designs lower_bounds_design)
               (DDesign_bounds number_designs upper_bounds_design))
            (\<lambda>minimum.
          bind_err (reshape minimum number_designs (length lower_bounds_design))
            (\<lambda>new_points. concatenate experiment new_points)))"

subsection \<open>The point prediction design\<close>

text \<open>
  The objective of \<^verbatim>\<open>PointPredictionDesign.__init__\<close>:
  \<^verbatim>\<open>-np.sum(calculate_quantile(x, alpha) - calculate_quantile(x, 1 - alpha))\<close>.
\<close>

definition PointPredictionDesign_function ::
    "ParametricFunctionWithUncertainty \<Rightarrow> real \<Rightarrow> real list \<Rightarrow> error + real" where
  "PointPredictionDesign_function parametric_function_with_uncertainty alpha x =
     bind_err (calculate_quantile parametric_function_with_uncertainty x alpha) (\<lambda>upper.
     bind_err (calculate_quantile parametric_function_with_uncertainty x (1 - alpha)) (\<lambda>lower.
     bind_err (subtract upper lower) (\<lambda>difference. Inr (- sum_list difference))))"

definition PointPredictionDesign ::
    "real list \<Rightarrow> real list \<Rightarrow> Minimizer \<Rightarrow> ParametricFunctionWithUncertainty \<Rightarrow> real
       \<Rightarrow> error + ndarray" where
  "PointPredictionDesign lower_bounds_design upper_bounds_design minimizer
       parametric_function_with_uncertainty alpha =
     bind_err
       (minimizer (PointPredictionDesign_function parametric_function_with_uncertainty alpha)
          lower_bounds_design upper_bounds_design)
       (\<lambda>minimum. reshape minimum 1 (length lower_bounds_design))"

subsection \<open>The metric of the parameter estimations\<close>

text \<open>
  Modelled from the spec: \<^verbatim>\<open>StdParameterEstimations.calculate\<close>, whose module
  (\<^verbatim>\<open>src/oed/metrics/metric_library\<close>) is not among the sources; only its test is.
  The specification calls its result the sample standard deviation of the estimations:
  the square root of the sum of the squared deviations from the mean, divided by \<open>n - 1\<close>.
  With fewer than two samples the quotient is not a number, which is \<open>None\<close> here.
\<close>

definition mean :: "real list \<Rightarrow> real" where
  "mean xs = sum_list xs / real (length xs)"

definition StdParameterEstimations_calculate :: "real list \<Rightarrow> real option" where
  "StdParameterEstimations_calculate estimations_of_parameter =
     (if length estimations_of_parameter < 2 then None
      else Some (sqrt (sum_list (map (\<lambda>v. (v - mean estimations_of_parameter) ^ 2)
                                   estimations_of_parameter)
                       / (real (length estimations_of_parameter) - 1))))"

subsection \<open>The calendar aging model\<close>

record Aging_Model =
  SoCref :: real
  Tref :: real
  EOL_C :: real
  t_end :: real
  t :: "real list"

text \<open>\<^verbatim>\<open>Aging_Model()\<close> with the default arguments of \<^verbatim>\<open>__init__\<close>.\<close>

definition Aging_Model_init :: Aging_Model where
  "Aging_Model_init =
     \<lparr>SoCref = 0.5, Tref = 296.15, EOL_C = 0.9, t_end = 520,
      t = [7, 35, 63, 119, 175, 231]\<rparr>"

definition x_ref_cal :: "Aging_Model \<Rightarrow> real \<Rightarrow> real" where
  "x_ref_cal self param = (1 - EOL_C self) / ((t_end self * (24 * 3600)) powr param)"

definition d_SoC_cal :: "Aging_Model \<Rightarrow> real \<Rightarrow> real list \<Rightarrow> error + real" where
  "d_SoC_cal self SoC param =
     bind_err (getitem param 0) (\<lambda>p0. Inr ((SoC / SoCref self) powr (1 / p0)))"

definition d_T_cal :: "Aging_Model \<Rightarrow> real \<Rightarrow> real list \<Rightarrow> error + real" where
  "d_T_cal self T param =
     bind_err (getitem param 0) (\<lambda>p0. Inr (exp (- p0 * ((1 / T) - (1 / Tref self)))))"

text \<open>
  \<^verbatim>\<open>Calendar_Aging\<close>: the product of three scalars and the array
  \<^verbatim>\<open>(self.t * (24 * 3600)) ** theta[2]\<close>, one entry per time of the grid. The
  subscripts are evaluated in the order of the source expression.
\<close>

definition Calendar_Aging :: "Aging_Model \<Rightarrow> real list \<Rightarrow> real list \<Rightarrow> error + real list" where
  "Calendar_Aging self theta x =
     bind_err (getitem theta 2) (\<lambda>theta2.
     bind_err (getitem x 0) (\<lambda>x0.
     bind_err (getitem theta 0) (\<lambda>theta0.
     bind_err (d_SoC_cal self x0 [theta0]) (\<lambda>dSoC.
     bind_err (getitem x 1) (\<lambda>x1.
     bind_err (getitem theta 1) (\<lambda>theta1.
     bind_err (d_T_cal self x1 [theta1]) (\<lambda>dT.
       Inr (map (\<lambda>tj. x_ref_cal self theta2 * dSoC * dT * (tj * (24 * 3600)) powr theta2)
              (t self)))))))))"

text \<open>
  \<^verbatim>\<open>partial_derivative_Calendar_Aging\<close>. The last branch of the source is
  \<^verbatim>\<open>else: pass\<close>, so the function returns \<^verbatim>\<open>None\<close> for every other index.
\<close>

definition partial_derivative_Calendar_Aging ::
    "Aging_Model \<Rightarrow> real list \<Rightarrow> real list \<Rightarrow> int \<Rightarrow> error + real list option" where
  "partial_derivative_Calendar_Aging self theta x index =
     (if index = 0 then
        bind_err (Calendar_Aging self theta x) (\<lambda>Q.
        bind_err (getitem x 0) (\<lambda>x0.
        bind_err (getitem theta 0) (\<lambda>theta0.
          Inr (Some (map (\<lambda>q. - q * ln (x0 / SoCref self) / theta0 ^ 2) Q)))))
      else if index = 1 then
        bind_err (Calendar_Aging self theta x) (\<lambda>Q.
        bind_err (getitem x 1) (\<lambda>x1.
          Inr (Some (map (\<lambda>q. - q * ((1 / x1) - (1 / Tref self))) Q))))
      else if index = 2 then
        bind_err (Calendar_Aging self theta x) (\<lambda>Q.
          Inr (Some (map2 (\<lambda>q tj. - q * (ln (t_end self * (24 * 3600)) - ln (tj * (24 * 3600))))
                       Q (t self))))
      else Inr None)"

text \<open>
  The class \<^verbatim>\<open>AgingModel\<close> wraps one \<^verbatim>\<open>Aging_Model()\<close> built with the
  defaults.
\<close>

definition AgingModel_call :: "real list \<Rightarrow> real list \<Rightarrow> error + real list" where
  "AgingModel_call theta x = Calendar_Aging Aging_Model_init theta x"

definition AgingModel_partial_derivative ::
    "real list \<Rightarrow> real list \<Rightarrow> int \<Rightarrow> error + real list option" where
  "AgingModel_partial_derivative theta x parameter_index =
     partial_derivative_Calendar_Aging Aging_Model_init theta x parameter_index"

definition AgingModel_second_partial_derivative ::
    "real list \<Rightarrow> real list \<Rightarrow> int \<Rightarrow> int \<Rightarrow> error + real list" where
  "AgingModel_second_partial_derivative theta x parameter1_index parameter2_index =
     Inl NotImplementedError"

subsection \<open>The Fisher information matrix and its determinant\<close>

text \<open>
  Modelled from the spec: the statistical model behind
  \<^verbatim>\<open>calculate_determinant_fisher_information_matrix\<close> (the Gaussian noise model of
  \<^verbatim>\<open>src/oed/statistical_models\<close>), which is not among the sources. The
  specification defines the Fisher information matrix at \<open>theta\<close> of a design \<open>x0\<close> as
  \<open>(1/sigma^2)\<close> times the sum over the design points of \<open>J\<^sup>T J\<close>, where entry \<open>i\<close> of
  the Jacobian row \<open>J\<close> is the partial derivative of the parametric function with respect
  to \<open>theta[i]\<close> at that design point; it is a square matrix of size \<open>len(theta)\<close>. The
  partial derivative of the (scalar) parametric function is a parameter. A matrix is a
  function of the row and the column index, read on indices below its size.
\<close>

definition calculate_fisher_information_matrix ::
    "real \<Rightarrow> (real list \<Rightarrow> real list \<Rightarrow> nat \<Rightarrow> real) \<Rightarrow> real list \<Rightarrow> ndarray \<Rightarrow> nat \<Rightarrow> nat \<Rightarrow> real" where
  "calculate_fisher_information_matrix sigma partial_derivative theta x0 =
     (\<lambda>i j. (1 / sigma\<^sup>2) *
        (\<Sum>x\<leftarrow>rows x0. partial_derivative theta x i * partial_derivative theta x j))"

text \<open>
  The determinant of the leading \<open>n \<times> n\<close> block, by Laplace expansion along the first
  column: the minor of entry \<open>(i, 0)\<close> deletes row \<open>i\<close> and the first column.
\<close>

definition delete_row :: "nat \<Rightarrow> (nat \<Rightarrow> 'a) \<Rightarrow> nat \<Rightarrow> 'a" where
  "delete_row i A = (\<lambda>r. A (if r < i then r else Suc r))"

definition drop_column :: "(nat \<Rightarrow> nat \<Rightarrow> 'a) \<Rightarrow> nat \<Rightarrow> nat \<Rightarrow> 'a" where
  "drop_column A = (\<lambda>r c. A r (Suc c))"

fun determinant :: "nat \<Rightarrow> (nat \<Rightarrow> nat \<Rightarrow> real) \<Rightarrow> real" where
  "determinant 0 A = 1"
| "determinant (Suc n) A =
     (\<Sum>i\<le>n. (- 1) ^ i * A i 0 * determinant n (drop_column (delete_row i A)))"

text \<open>
  Modelled from the spec: \<^verbatim>\<open>calculate_determinant_fisher_information_matrix\<close> of the
  Gaussian noise model with noise \<open>sigma\<close>, the determinant of the matrix above.
\<close>

definition GaussianNoiseModel ::
    "real \<Rightarrow> (real list \<Rightarrow> real list \<Rightarrow> nat \<Rightarrow> real) \<Rightarrow> StatisticalModel" where
  "GaussianNoiseModel sigma partial_derivative =
     \<lparr>calculate_determinant_fisher_information_matrix =
        (\<lambda>theta x0. Inr (determinant (length theta)
           (calculate_fisher_information_matrix sigma partial_derivative theta x0)))\<rparr>"

text \<open>
  Notions used in the proofs: the quadratic form of a matrix, positive semi-definite
  matrices, and the Schur complement of the first diagonal entry.
\<close>

definition quadratic_form :: "nat \<Rightarrow> (nat \<Rightarrow> nat \<Rightarrow> real) \<Rightarrow> (nat \<Rightarrow> real) \<Rightarrow> real" where
  "quadratic_form n A v = (\<Sum>i<n. \<Sum>j<n. v i * A i j * v j)"

definition positive_semidefinite :: "nat \<Rightarrow> (nat \<Rightarrow> nat \<Rightarrow> real) \<Rightarrow> bool" where
  "positive_semidefinite n A =
     ((\<forall>i<n. \<forall>j<n. A i j = A j i) \<and> (\<forall>v. 0 \<le> quadratic_form n A v))"

definition schur_complement :: "(nat \<Rightarrow> nat \<Rightarrow> real) \<Rightarrow> nat \<Rightarrow> nat \<Rightarrow> real" where
  "schur_complement A = (\<lambda>i j. A (Suc i) (Suc j) - A (Suc i) 0 * A 0 (Suc j) / A 0 0)"


section \<open>Theorems\<close>

subsection \<open>Helper lemmas\<close>

lemma bind_err_Inr [simp]: "bind_err (Inr v) f = f v"
  by (simp add: bind_err_def)

lemma bind_err_Inl [simp]: "bind_err (Inl e) f = Inl e"
  by (simp add: bind_err_def)

lemma getitem_in_range: "i < length a \<Longrightarrow> getitem a i = Inr (a ! i)"
  by (simp add: getitem_def)

lemma getitem_out_of_range: "length a \<le> i \<Longrightarrow> getitem a i = Inl IndexError"
  by (simp add: getitem_def)

lemma getitem_singleton [simp]: "getitem [a] 0 = Inr a"
  by (simp add: getitem_def)



lemma Calendar_Aging_value:
  assumes "3 \<le> length theta" "2 \<le> length x"
  shows "Calendar_Aging self theta x =
     Inr (map (\<lambda>tj. x_ref_cal self (theta ! 2) * (x ! 0 / SoCref self) powr (1 / theta ! 0)
                 * exp (- (theta ! 1) * ((1 / x ! 1) - (1 / Tref self)))
                 * (tj * (24 * 3600)) powr (theta ! 2)) (t self))"
  using assms by (auto simp add: Calendar_Aging_def getitem_def d_SoC_cal_def d_T_cal_def)

lemma deriv_powr_reciprocal:
  fixes a :: real
  assumes "0 < a" "v0 \<noteq> 0"
  shows "((\<lambda>v. K * a powr (1 / v) * B * C) has_real_derivative
          - (K * a powr (1 / v0) * B * C) * ln a / v0 ^ 2) (at v0)"
proof -
  have fn: "(\<lambda>v. K * a powr (1 / v) * B * C) = (\<lambda>v. K * exp (ln a / v) * B * C)"
    using assms by (simp add: powr_def)
  have val: "a powr (1 / v0) = exp (ln a / v0)"
    using assms by (simp add: powr_def)
  have "((\<lambda>v. K * exp (ln a / v) * B * C) has_real_derivative
          - (K * exp (ln a / v0) * B * C) * ln a / v0 ^ 2) (at v0)"
    using assms by (auto intro!: derivative_eq_intros simp: power2_eq_square)
  then show ?thesis by (simp only: fn val)
qed

lemma deriv_exp_linear:
  fixes c :: real
  shows "((\<lambda>v. K * A * exp (- v * c) * C) has_real_derivative
          - (K * A * exp (- v0 * c) * C) * c) (at v0)"
  by (auto intro!: derivative_eq_intros)

lemma deriv_powr_quotient:
  fixes b c :: real
  assumes "0 < b" "0 < c"
  shows "((\<lambda>v. (E / (b powr v)) * A * B * c powr v) has_real_derivative
          - ((E / (b powr v0)) * A * B * c powr v0) * (ln b - ln c)) (at v0)"
  using assms
  by (auto intro!: derivative_eq_intros simp: field_simps)

lemma Calendar_Aging_nth:
  assumes "3 \<le> length theta" "2 \<le> length x" "j < length (t self)"
  shows "projr (Calendar_Aging self theta x) ! j =
     x_ref_cal self (theta ! 2) * (x ! 0 / SoCref self) powr (1 / theta ! 0)
       * exp (- (theta ! 1) * ((1 / x ! 1) - (1 / Tref self)))
       * (t self ! j * (24 * 3600)) powr (theta ! 2)"
  using assms by (simp add: Calendar_Aging_value)

lemma partial_derivative_value0:
  assumes "3 \<le> length theta" "2 \<le> length x"
  shows "partial_derivative_Calendar_Aging self theta x 0 =
     Inr (Some (map (\<lambda>q. - q * ln (x ! 0 / SoCref self) / (theta ! 0) ^ 2)
                  (projr (Calendar_Aging self theta x))))"
  using assms
  by (auto simp add: partial_derivative_Calendar_Aging_def Calendar_Aging_value getitem_def)

lemma partial_derivative_value1:
  assumes "3 \<le> length theta" "2 \<le> length x"
  shows "partial_derivative_Calendar_Aging self theta x 1 =
     Inr (Some (map (\<lambda>q. - q * ((1 / x ! 1) - (1 / Tref self)))
                  (projr (Calendar_Aging self theta x))))"
  using assms
  by (auto simp add: partial_derivative_Calendar_Aging_def Calendar_Aging_value getitem_def)

lemma partial_derivative_value2:
  assumes "3 \<le> length theta" "2 \<le> length x"
  shows "partial_derivative_Calendar_Aging self theta x 2 =
     Inr (Some (map2 (\<lambda>q tj. - q * (ln (t_end self * (24 * 3600)) - ln (tj * (24 * 3600))))
                  (projr (Calendar_Aging self theta x)) (t self)))"
  using assms
  by (simp add: partial_derivative_Calendar_Aging_def Calendar_Aging_value)

lemma deriv_theta0:
  assumes "3 \<le> length theta" "2 \<le> length x" "j < length (t self)"
    and "theta ! 0 \<noteq> 0" "0 < x ! 0" "0 < SoCref self"
  shows "((\<lambda>v. projr (Calendar_Aging self (theta[0 := v]) x) ! j) has_real_derivative
           - (projr (Calendar_Aging self theta x) ! j) * ln (x ! 0 / SoCref self) / (theta ! 0) ^ 2)
         (at (theta ! 0))"
proof -
  define K where "K = x_ref_cal self (theta ! 2)"
  define B where "B = exp (- (theta ! 1) * ((1 / x ! 1) - (1 / Tref self)))"
  define C where "C = (t self ! j * (24 * 3600)) powr (theta ! 2)"
  have pos: "0 < x ! 0 / SoCref self" using assms by simp
  have len: "0 < length theta" using assms(1) by linarith
  have fn: "(\<lambda>v. projr (Calendar_Aging self (theta[0 := v]) x) ! j) =
            (\<lambda>v. K * (x ! 0 / SoCref self) powr (1 / v) * B * C)"
    using assms(1-3) len by (simp add: Calendar_Aging_nth K_def B_def C_def)
  have val: "projr (Calendar_Aging self theta x) ! j =
             K * (x ! 0 / SoCref self) powr (1 / theta ! 0) * B * C"
    using assms(1-3) by (simp add: Calendar_Aging_nth K_def B_def C_def)
  show ?thesis unfolding fn val by (rule deriv_powr_reciprocal [OF pos assms(4)])
qed

lemma deriv_theta1:
  assumes "3 \<le> length theta" "2 \<le> length x" "j < length (t self)"
  shows "((\<lambda>v. projr (Calendar_Aging self (theta[1 := v]) x) ! j) has_real_derivative
           - (projr (Calendar_Aging self theta x) ! j) * ((1 / x ! 1) - (1 / Tref self)))
         (at (theta ! 1))"
proof -
  define K where "K = x_ref_cal self (theta ! 2)"
  define A where "A = (x ! 0 / SoCref self) powr (1 / theta ! 0)"
  define C where "C = (t self ! j * (24 * 3600)) powr (theta ! 2)"
  define c where "c = (1 / x ! 1) - (1 / Tref self)"
  have fn: "(\<lambda>v. projr (Calendar_Aging self (theta[1 := v]) x) ! j) =
            (\<lambda>v. K * A * exp (- v * c) * C)"
    using assms by (simp add: Calendar_Aging_nth K_def A_def C_def c_def)
  have val: "projr (Calendar_Aging self theta x) ! j = K * A * exp (- (theta ! 1) * c) * C"
    using assms by (simp add: Calendar_Aging_nth K_def A_def C_def c_def)
  show ?thesis unfolding fn val c_def [symmetric] by (rule deriv_exp_linear)
qed

lemma deriv_theta2:
  assumes "3 \<le> length theta" "2 \<le> length x" "j < length (t self)"
    and "0 < t_end self" "0 < t self ! j"
  shows "((\<lambda>v. projr (Calendar_Aging self (theta[2 := v]) x) ! j) has_real_derivative
           - (projr (Calendar_Aging self theta x) ! j)
             * (ln (t_end self * (24 * 3600)) - ln (t self ! j * (24 * 3600))))
         (at (theta ! 2))"
proof -
  define E where "E = 1 - EOL_C self"
  define A where "A = (x ! 0 / SoCref self) powr (1 / theta ! 0)"
  define B where "B = exp (- (theta ! 1) * ((1 / x ! 1) - (1 / Tref self)))"
  define b where "b = t_end self * (24 * 3600)"
  define c where "c = t self ! j * (24 * 3600)"
  have b: "0 < b" and c: "0 < c"
    using assms by (simp_all add: b_def c_def)
  have fn: "(\<lambda>v. projr (Calendar_Aging self (theta[2 := v]) x) ! j) =
            (\<lambda>v. (E / (b powr v)) * A * B * c powr v)"
    using assms(1-3) by (simp add: Calendar_Aging_nth x_ref_cal_def E_def A_def B_def b_def c_def)
  have val: "projr (Calendar_Aging self theta x) ! j = (E / (b powr (theta ! 2))) * A * B * c powr (theta ! 2)"
    using assms(1-3) by (simp add: Calendar_Aging_nth x_ref_cal_def E_def A_def B_def b_def c_def)
  show ?thesis unfolding fn val b_def [symmetric] c_def [symmetric] by (rule deriv_powr_quotient [OF b c])
qed

lemma Aging_Model_init_fields:
  "SoCref Aging_Model_init = 0.5" "Tref Aging_Model_init = 296.15"
  "EOL_C Aging_Model_init = 0.9" "t_end Aging_Model_init = 520"
  "t Aging_Model_init = [7, 35, 63, 119, 175, 231]"
  by (simp_all add: Aging_Model_init_def)

lemma Aging_Model_init_grid:
  "length (t Aging_Model_init) = 6"
  "j < 6 \<Longrightarrow> 0 < t Aging_Model_init ! j"
proof -
  show "length (t Aging_Model_init) = 6" by (simp add: Aging_Model_init_fields)
  have pos: "\<forall>tj \<in> set (t Aging_Model_init). 0 < tj"
    by (simp add: Aging_Model_init_fields)
  assume "j < 6"
  then have "t Aging_Model_init ! j \<in> set (t Aging_Model_init)"
    by (intro nth_mem) (simp add: Aging_Model_init_fields)
  with pos show "0 < t Aging_Model_init ! j" by blast
qed

lemma Calendar_Aging_length:
  assumes "3 \<le> length theta" "2 \<le> length x"
  shows "length (projr (Calendar_Aging self theta x)) = length (t self)"
  using assms by (simp add: Calendar_Aging_value)

lemma Calendar_Aging_Inr:
  assumes "3 \<le> length theta" "2 \<le> length x"
  shows "Calendar_Aging self theta x = Inr (projr (Calendar_Aging self theta x))"
  using assms by (simp add: Calendar_Aging_value)


subsection \<open>The analytic partial derivatives\<close>

text \<open>
  Claim C1. For every parameter index in \<open>{0, 1, 2}\<close>, every \<open>theta\<close> with
  \<open>theta[0] \<noteq> 0\<close> and every \<open>x\<close> with \<open>x[0] > 0\<close> and \<open>x[1] > 0\<close>,
  \<^verbatim>\<open>AgingModel.partial_derivative\<close> returns, at each of the six times of the grid,
  the derivative of \<^verbatim>\<open>Calendar_Aging(theta, x)\<close> with respect to
  \<open>theta[index]\<close> (the other parameters fixed), and that derivative is \<open>-f\<close> times
  \<open>ln(x[0]/SoCref) / theta[0]^2\<close>, \<open>1/x[1] - 1/Tref\<close> and
  \<open>ln(t_end * 86400) - ln(t * 86400)\<close> for the indices 0, 1 and 2, where \<open>f\<close> is the
  value of \<^verbatim>\<open>Calendar_Aging(theta, x)\<close>.
\<close>

theorem partial_derivative_is_analytic_derivative:
  assumes idx: "index \<in> {0, 1, 2}"
    and wf: "3 \<le> length theta" "2 \<le> length x"
    and dom: "theta ! 0 \<noteq> 0" "0 < x ! 0" "0 < x ! 1"
    and j: "j < 6"
  shows "\<exists>f D. AgingModel_call theta x = Inr f
           \<and> AgingModel_partial_derivative theta x index = Inr (Some D)
           \<and> length f = 6 \<and> length D = 6
           \<and> ((\<lambda>v. projr (AgingModel_call (theta[nat index := v]) x) ! j)
                 has_real_derivative D ! j) (at (theta ! nat index))
           \<and> D ! j =
               (if index = 0 then
                  - f ! j * ln (x ! 0 / SoCref Aging_Model_init) / (theta ! 0) ^ 2
                else if index = 1 then
                  - f ! j * ((1 / x ! 1) - (1 / Tref Aging_Model_init))
                else
                  - f ! j * (ln (t_end Aging_Model_init * (24 * 3600))
                             - ln (t Aging_Model_init ! j * (24 * 3600))))"
proof -
  let ?A = "Aging_Model_init"
  let ?f = "projr (Calendar_Aging ?A theta x)"
  have jt: "j < length (t ?A)" using j by (simp add: Aging_Model_init_grid)
  have f: "AgingModel_call theta x = Inr ?f"
    unfolding AgingModel_call_def by (rule Calendar_Aging_Inr [OF wf])
  have lf: "length ?f = 6"
    by (simp add: Calendar_Aging_length [OF wf] Aging_Model_init_grid)
  have call: "(\<lambda>v. projr (AgingModel_call (theta[i := v]) x) ! j)
               = (\<lambda>v. projr (Calendar_Aging ?A (theta[i := v]) x) ! j)" for i
    by (simp add: AgingModel_call_def)
  consider "index = 0" | "index = 1" | "index = 2" using idx by auto
  then show ?thesis
  proof cases
    case 1
    let ?D = "map (\<lambda>q. - q * ln (x ! 0 / SoCref ?A) / (theta ! 0) ^ 2) ?f"
    have D: "AgingModel_partial_derivative theta x index = Inr (Some ?D)"
      unfolding AgingModel_partial_derivative_def 1 by (rule partial_derivative_value0 [OF wf])
    have Dj: "?D ! j = - ?f ! j * ln (x ! 0 / SoCref ?A) / (theta ! 0) ^ 2"
      using j lf by simp
    have "((\<lambda>v. projr (AgingModel_call (theta[nat index := v]) x) ! j)
             has_real_derivative ?D ! j) (at (theta ! nat index))"
      unfolding Dj call using deriv_theta0 [OF wf jt dom(1,2)]
      by (simp add: 1 Aging_Model_init_fields)
    with f D lf Dj show ?thesis using 1 by (intro exI [of _ ?f] exI [of _ ?D]) simp
  next
    case 2
    let ?D = "map (\<lambda>q. - q * ((1 / x ! 1) - (1 / Tref ?A))) ?f"
    have D: "AgingModel_partial_derivative theta x index = Inr (Some ?D)"
      unfolding AgingModel_partial_derivative_def 2 by (rule partial_derivative_value1 [OF wf])
    have Dj: "?D ! j = - ?f ! j * ((1 / x ! 1) - (1 / Tref ?A))"
      using j lf by simp
    have "((\<lambda>v. projr (AgingModel_call (theta[nat index := v]) x) ! j)
             has_real_derivative ?D ! j) (at (theta ! nat index))"
      unfolding Dj call using deriv_theta1 [OF wf jt]
      by (simp add: 2)
    with f D lf Dj show ?thesis using 2 by (intro exI [of _ ?f] exI [of _ ?D]) simp
  next
    case 3
    let ?D = "map2 (\<lambda>q tj. - q * (ln (t_end ?A * (24 * 3600)) - ln (tj * (24 * 3600))))
                ?f (t ?A)"
    have D: "AgingModel_partial_derivative theta x index = Inr (Some ?D)"
      unfolding AgingModel_partial_derivative_def 3 by (rule partial_derivative_value2 [OF wf])
    have Dj: "?D ! j = - ?f ! j * (ln (t_end ?A * (24 * 3600)) - ln (t ?A ! j * (24 * 3600)))"
      using j jt lf by simp
    have lD: "length ?D = 6" using lf by (simp add: Aging_Model_init_grid)
    have "((\<lambda>v. projr (AgingModel_call (theta[nat index := v]) x) ! j)
             has_real_derivative ?D ! j) (at (theta ! nat index))"
      unfolding Dj call
      using deriv_theta2 [OF wf jt _ Aging_Model_init_grid(2) [OF j]]
      by (simp add: 3 Aging_Model_init_fields(4))
    with f D lf lD Dj show ?thesis using 3 by (intro exI [of _ ?f] exI [of _ ?D]) simp
  qed
qed

theorem partial_derivative_is_analytic_derivative_witness:
  "\<exists>f D. AgingModel_call [2, 402, 1 / 8] [1 / 4, 310] = Inr f
      \<and> AgingModel_partial_derivative [2, 402, 1 / 8] [1 / 4, 310] 0 = Inr (Some D)
      \<and> length f = 6 \<and> length D = 6
      \<and> ((\<lambda>v. projr (AgingModel_call [v, 402, 1 / 8] [1 / 4, 310]) ! 3)
            has_real_derivative D ! 3) (at 2)
      \<and> D ! 3 = - f ! 3 * ln ((1 / 4) / SoCref Aging_Model_init) / 2 ^ 2"
  using partial_derivative_is_analytic_derivative
          [of 0 "[2, 402, 1 / 8]" "[1 / 4, 310]" 3]
  by simp


subsection \<open>The aging model reads two components of the design point\<close>



subsection \<open>The second derivative is not implemented\<close>

text \<open>
  Claim C7. For every \<open>theta\<close>, \<open>x\<close> and pair of parameter indices,
  \<^verbatim>\<open>AgingModel.second_partial_derivative\<close> raises: the body of the method is the
  single statement \<^verbatim>\<open>raise NotImplementedError\<close>, the Python exception that stands
  for the specification's \<^verbatim>\<open>NotSupportedError\<close>. No value is ever returned.
\<close>

theorem second_partial_derivative_raises:
  "AgingModel_second_partial_derivative theta x i j = Inl NotImplementedError"
  by (simp add: AgingModel_second_partial_derivative_def)

subsection \<open>Helper lemmas on arrays and bounds\<close>

lemma length_DDesign_bounds: "length (DDesign_bounds n b) = n * length b"
  by (induction n) (simp_all add: DDesign_bounds_def)

lemma DDesign_bounds_Suc: "DDesign_bounds (Suc n) b = b @ DDesign_bounds n b"
  by (simp add: DDesign_bounds_def)

lemma DDesign_bounds_one: "DDesign_bounds 1 b = b"
  by (simp add: DDesign_bounds_def)

lemma nth_DDesign_bounds:
  "i < n \<Longrightarrow> k < length b \<Longrightarrow> DDesign_bounds n b ! (i * length b + k) = b ! k"
proof (induction i arbitrary: n)
  case 0
  then obtain m where "n = Suc m" by (cases n) auto
  with 0 show ?case by (simp add: DDesign_bounds_Suc nth_append)
next
  case (Suc i)
  then obtain m where n: "n = Suc m" and im: "i < m" by (cases n) auto
  have "DDesign_bounds n b ! (Suc i * length b + k) = DDesign_bounds m b ! (i * length b + k)"
    by (simp add: n DDesign_bounds_Suc nth_append)
  with Suc.IH [OF im Suc.prems(2)] show ?case by simp
qed

lemma flat_index_in_range:
  fixes i k n d :: nat
  assumes "i < n" "k < d"
  shows "i * d + k < n * d"
proof -
  have "i * d + k < i * d + d" using assms by simp
  also have "\<dots> = Suc i * d" by simp
  also have "\<dots> \<le> n * d" using assms by (intro mult_le_mono1) simp
  finally show ?thesis .
qed

lemma reshape_Inr:
  "length v = n * d \<Longrightarrow> reshape v n d = Inr \<lparr>nrows = n, ncols = d, buffer = v\<rparr>"
  by (simp add: reshape_def)

lemma reshape_Inl: "length v \<noteq> n * d \<Longrightarrow> reshape v n d = Inl ValueError"
  by (simp add: reshape_def)

lemma row_nth:
  assumes "well_shaped a" "i < nrows a" "k < ncols a"
  shows "row a i ! k = buffer a ! (i * ncols a + k)"
proof -
  have "i * ncols a + k < length (buffer a)"
    using assms flat_index_in_range [of i "nrows a" k "ncols a"] by (simp add: well_shaped_def)
  then show ?thesis using assms by (simp add: row_def)
qed

lemma length_row:
  assumes "well_shaped a" "i < nrows a"
  shows "length (row a i) = ncols a"
proof -
  have "Suc i * ncols a \<le> nrows a * ncols a"
    using assms by (intro mult_le_mono1) simp
  then have "ncols a \<le> length (buffer a) - i * ncols a"
    using assms by (simp add: well_shaped_def)
  then show ?thesis by (simp add: row_def)
qed

lemma row_concatenate_left:
  assumes "well_shaped a" "ncols a = ncols b" "i < nrows a"
  shows "row (projr (concatenate a b)) i = row a i"
proof -
  have le: "Suc i * ncols a \<le> nrows a * ncols a"
    using assms by (intro mult_le_mono1) simp
  then have "ncols a \<le> length (buffer a) - i * ncols a" "i * ncols a \<le> length (buffer a)"
    using assms by (simp_all add: well_shaped_def)
  then show ?thesis using assms by (simp add: row_def concatenate_def)
qed

lemma row_concatenate_right:
  assumes "well_shaped a" "ncols a = ncols b"
  shows "row (projr (concatenate a b)) (nrows a + i) = row b i"
proof -
  have "(nrows a + i) * ncols b = length (buffer a) + i * ncols b"
    using assms by (simp add: well_shaped_def add_mult_distrib)
  then show ?thesis using assms by (simp add: row_def concatenate_def)
qed

lemma rows_concatenate:
  assumes "well_shaped a" "ncols a = ncols b"
  shows "rows (projr (concatenate a b)) = rows a @ rows b"
proof (rule nth_equalityI)
  let ?c = "projr (concatenate a b)"
  have n: "nrows ?c = nrows a + nrows b" using assms by (simp add: concatenate_def)
  show "length (rows ?c) = length (rows a @ rows b)"
    by (simp add: rows_def n)
  fix i assume "i < length (rows ?c)"
  then have i: "i < nrows a + nrows b" by (simp add: rows_def n)
  show "rows ?c ! i = (rows a @ rows b) ! i"
  proof (cases "i < nrows a")
    case True
    then show ?thesis
      using i row_concatenate_left [OF assms True] by (simp add: rows_def n nth_append)
  next
    case False
    then obtain k where k: "i = nrows a + k" "k < nrows b"
      using i by (metis add_diff_inverse_nat nat_add_left_cancel_less)
    show ?thesis
      using k row_concatenate_right [OF assms, of k] by (simp add: rows_def n nth_append)
  qed
qed

lemma concatenate_Inr:
  "ncols a = ncols b \<Longrightarrow>
   concatenate a b = Inr \<lparr>nrows = nrows a + nrows b, ncols = ncols a, buffer = buffer a @ buffer b\<rparr>"
  by (simp add: concatenate_def)

lemma well_shaped_concatenate:
  assumes "well_shaped a" "well_shaped b" "ncols a = ncols b"
  shows "well_shaped (projr (concatenate a b))"
  using assms by (simp add: concatenate_def well_shaped_def add_mult_distrib)

lemma DDesign_function_value:
  assumes "ncols P = length lb" "length x = n * length lb"
  shows "DDesign_function n lb theta sm P x =
     bind_err (calculate_determinant_fisher_information_matrix sm theta
                 \<lparr>nrows = nrows P + n, ncols = length lb, buffer = buffer P @ x\<rparr>)
       (\<lambda>determinant. Inr (- determinant))"
  using assms by (simp add: DDesign_function_def reshape_def concatenate_def)

lemma sum_list_map2_minus:
  fixes a b :: "real list"
  assumes "length a = length b"
  shows "sum_list (map2 (\<lambda>u v. u - v) a b) = (\<Sum>i<length a. a ! i - b ! i)"
proof -
  have "sum_list (map2 (\<lambda>u v. u - v) a b)
        = (\<Sum>i = 0..<length a. map2 (\<lambda>u v. u - v) a b ! i)"
    using assms by (simp add: sum_list_sum_nth)
  also have "\<dots> = (\<Sum>i = 0..<length a. a ! i - b ! i)"
    using assms by (intro sum.cong) simp_all
  finally show ?thesis by (simp add: atLeast0LessThan)
qed

lemma rows_single:
  assumes "length v = d"
  shows "rows \<lparr>nrows = 1, ncols = d, buffer = v\<rparr> = [v]"
  using assms by (simp add: rows_def row_def)

subsection \<open>The D-optimal design appends the reshaped minimum\<close>

text \<open>
  Claim C2. For every previous experiment that is not \<^verbatim>\<open>None\<close>, an \<open>m \<times> d\<close> matrix
  with \<open>d\<close> the number of design bounds, and every number of designs \<open>n\<close>, the experiment
  \<^verbatim>\<open>DDesign\<close> builds is the \<open>m\<close> rows of the previous experiment followed by the
  \<open>n \<times> d\<close> matrix obtained by reshaping the vector the minimizer returned (a vector of
  \<open>n * d\<close> entries). The objective handed to the minimizer is, at every candidate vector of
  \<open>n * d\<close> entries, the negation of
  \<^verbatim>\<open>calculate_determinant_fisher_information_matrix\<close> at \<open>initial_theta\<close> on the
  previous experiment followed by the reshaped candidate: the determinant is maximised by
  minimising its negation. The theorem holds for \<open>n = 0\<close> as well as for \<open>n \<ge> 1\<close>.
\<close>

theorem DDesign_appends_the_reshaped_minimum:
  assumes P: "well_shaped P" "ncols P = length lb"
    and mz: "mz (DDesign_function n lb theta sm P) (DDesign_bounds n lb) (DDesign_bounds n ub) = Inr v"
    and v: "length v = n * length lb"
  shows "\<exists>X D. reshape v n (length lb) = Inr X
           \<and> DDesign n lb ub theta sm mz (Some P) = Inr D
           \<and> nrows D = nrows P + n \<and> ncols D = length lb \<and> well_shaped D
           \<and> rows D = rows P @ rows X
           \<and> (\<forall>x. length x = n * length lb \<longrightarrow>
                 DDesign_function n lb theta sm P x =
                   bind_err (calculate_determinant_fisher_information_matrix sm theta
                               \<lparr>nrows = nrows P + n, ncols = length lb, buffer = buffer P @ x\<rparr>)
                     (\<lambda>determinant. Inr (- determinant)))"
proof -
  let ?X = "\<lparr>nrows = n, ncols = length lb, buffer = v\<rparr>"
  let ?D = "\<lparr>nrows = nrows P + n, ncols = length lb, buffer = buffer P @ v\<rparr>"
  have X: "reshape v n (length lb) = Inr ?X" by (rule reshape_Inr [OF v])
  have wX: "well_shaped ?X" using v by (simp add: well_shaped_def)
  have cols: "ncols P = ncols ?X" using P(2) by simp
  have cat: "concatenate P ?X = Inr ?D" using P(2) by (simp add: concatenate_def)
  have D: "DDesign n lb ub theta sm mz (Some P) = Inr ?D"
    by (simp add: DDesign_def mz X cat)
  have shape: "nrows ?D = nrows P + n" "ncols ?D = length lb"
    by simp_all
  have wD: "well_shaped ?D"
    using well_shaped_concatenate [OF P(1) wX cols] by (simp only: cat sum.sel)
  have rws: "rows ?D = rows P @ rows ?X"
    using rows_concatenate [OF P(1) cols] by (simp only: cat sum.sel)
  have obj: "\<forall>x. length x = n * length lb \<longrightarrow>
                 DDesign_function n lb theta sm P x =
                   bind_err (calculate_determinant_fisher_information_matrix sm theta
                               \<lparr>nrows = nrows P + n, ncols = length lb, buffer = buffer P @ x\<rparr>)
                     (\<lambda>determinant. Inr (- determinant))"
    using DDesign_function_value [OF P(2)] by blast
  from X D shape wD rws obj show ?thesis by blast
qed

theorem DDesign_appends_the_reshaped_minimum_witness:
  "\<exists>X D. reshape [0, 1, 0, 1] 2 (length [0, 1 :: real]) = Inr X
      \<and> DDesign 2 [0, 1] [10, 11] [1]
           \<lparr>calculate_determinant_fisher_information_matrix = (\<lambda>theta a. Inr (sum_list (buffer a)))\<rparr>
           (\<lambda>f lo hi. Inr lo) (Some \<lparr>nrows = 1, ncols = 2, buffer = [5, 6]\<rparr>) = Inr D
      \<and> nrows D = 1 + 2 \<and> ncols D = 2 \<and> well_shaped D
      \<and> rows D = [[5, 6], [0, 1], [0, 1]]
      \<and> DDesign_function 2 [0, 1] [1]
           \<lparr>calculate_determinant_fisher_information_matrix = (\<lambda>theta a. Inr (sum_list (buffer a)))\<rparr>
           \<lparr>nrows = 1, ncols = 2, buffer = [5, 6]\<rparr> [1, 2, 3, 4] = Inr (- 21)"
proof -
  let ?P = "\<lparr>nrows = 1, ncols = 2, buffer = [5, 6 :: real]\<rparr>"
  let ?sm = "\<lparr>calculate_determinant_fisher_information_matrix =
               (\<lambda>theta a. Inr (sum_list (buffer a))) :: real list \<Rightarrow> ndarray \<Rightarrow> error + real\<rparr>"
  let ?mz = "(\<lambda>f lo hi. Inr lo) :: Minimizer"
  have P: "well_shaped ?P" "ncols ?P = length [0, 1 :: real]"
    by (simp_all add: well_shaped_def)
  have mz: "?mz (DDesign_function 2 [0, 1] [1] ?sm ?P) (DDesign_bounds 2 [0, 1])
              (DDesign_bounds 2 [10, 11]) = Inr [0, 1, 0, 1]"
    by (simp add: DDesign_bounds_def numeral_2_eq_2)
  have v: "length [0, 1, 0, 1 :: real] = 2 * length [0, 1 :: real]" by simp
  from DDesign_appends_the_reshaped_minimum
         [where P = "?P" and lb = "[0, 1]" and ub = "[10, 11]" and n = 2 and theta = "[1]"
            and sm = "?sm" and mz = "?mz" and v = "[0, 1, 0, 1]", OF P _ v] mz
  obtain X D where X: "reshape [0, 1, 0, 1] 2 (length [0, 1 :: real]) = Inr X"
    and D: "DDesign 2 [0, 1] [10, 11] [1] ?sm ?mz (Some ?P) = Inr D"
    and shape: "nrows D = nrows ?P + 2" "ncols D = length [0, 1 :: real]" "well_shaped D"
    and rws: "rows D = rows ?P @ rows X"
    and obj: "\<forall>x. length x = 2 * length [0, 1 :: real] \<longrightarrow>
                 DDesign_function 2 [0, 1] [1] ?sm ?P x =
                   bind_err (calculate_determinant_fisher_information_matrix ?sm [1]
                      \<lparr>nrows = nrows ?P + 2, ncols = length [0, 1 :: real], buffer = buffer ?P @ x\<rparr>)
                     (\<lambda>determinant. Inr (- determinant))"
    by blast
  from X have Xeq: "X = \<lparr>nrows = 2, ncols = 2, buffer = [0, 1, 0, 1]\<rparr>"
    by (auto simp add: reshape_def numeral_2_eq_2)
  have rX: "rows X = [[0, 1], [0, 1]]"
    by (simp add: Xeq rows_def row_def numeral_2_eq_2)
  have rP: "rows ?P = [[5, 6]]"
    by (simp add: rows_def row_def)
  from obj have o: "DDesign_function 2 [0, 1] [1] ?sm ?P [1, 2, 3, 4] = Inr (- 21)"
    by simp
  have rws': "rows D = [[5, 6], [0, 1], [0, 1]]"
    using rws by (simp only: rX rP append.simps)
  have shape': "nrows D = 1 + 2" "ncols D = 2"
    using shape by simp_all
  from X D shape' shape(3) rws' o show ?thesis
    by blast
qed

subsection \<open>The D-optimal design needs a previous experiment\<close>

text \<open>
  Claim C10. For every call of the \<^verbatim>\<open>DDesign\<close> constructor with
  \<open>previous_experiment\<close> left at its default \<^verbatim>\<open>None\<close>, construction fails: the
  constructor reads \<^verbatim>\<open>previous_experiment.experiment\<close> on every path, which on
  \<^verbatim>\<open>None\<close> raises \<^verbatim>\<open>AttributeError\<close>, before the minimizer is called.
\<close>

theorem DDesign_without_previous_experiment_fails:
  "DDesign number_designs lower_bounds_design upper_bounds_design initial_theta
     statistical_model minimizer None = Inl AttributeError"
  by (simp add: DDesign_def)

subsection \<open>The flat vector, its bounds and the reshaping\<close>

text \<open>
  Claim C4. A design of \<open>n\<close> points in \<open>d\<close> dimensions is optimised as one flat vector of
  \<open>n * d\<close> entries: the lower and upper bound vectors handed to the minimizer are the
  \<open>d\<close>-dimensional design bounds repeated \<open>n\<close> times in sequence (entry \<open>i * d + k\<close> is
  the bound of coordinate \<open>k\<close>), and the vector the minimizer returns is reshaped
  row-major into an \<open>n \<times> d\<close> matrix (entry \<open>k\<close> of row \<open>i\<close> is entry \<open>i * d + k\<close> of the
  vector). \<^verbatim>\<open>DDesign\<close> does so with \<open>n = number_designs\<close> and
  \<^verbatim>\<open>PointPredictionDesign\<close> with \<open>n = 1\<close>, where the bounds repeated once are the
  bounds themselves. Lower and upper bounds have the same length \<open>d\<close>.
\<close>

theorem design_vector_bounds_and_reshape:
  assumes "length ub = length lb"
  shows "length (DDesign_bounds n lb) = n * length lb
       \<and> length (DDesign_bounds n ub) = n * length lb
       \<and> (\<forall>i<n. \<forall>k<length lb.
             DDesign_bounds n lb ! (i * length lb + k) = lb ! k
           \<and> DDesign_bounds n ub ! (i * length lb + k) = ub ! k)
       \<and> (\<forall>v. length v = n * length lb \<longrightarrow>
             (\<exists>X. reshape v n (length lb) = Inr X \<and> nrows X = n \<and> ncols X = length lb
                \<and> (\<forall>i<n. \<forall>k<length lb. row X i ! k = v ! (i * length lb + k))))
       \<and> DDesign n lb ub theta sm mz (Some P) =
           bind_err (mz (DDesign_function n lb theta sm P) (DDesign_bounds n lb) (DDesign_bounds n ub))
             (\<lambda>v. bind_err (reshape v n (length lb)) (concatenate P))
       \<and> PointPredictionDesign lb ub mz pf alpha =
           bind_err (mz (PointPredictionDesign_function pf alpha)
                       (DDesign_bounds 1 lb) (DDesign_bounds 1 ub))
             (\<lambda>v. reshape v 1 (length lb))"
proof -
  have lenl: "length (DDesign_bounds n lb) = n * length lb"
    by (rule length_DDesign_bounds)
  have lenu: "length (DDesign_bounds n ub) = n * length lb"
    by (simp only: length_DDesign_bounds assms)
  have bounds: "\<forall>i<n. \<forall>k<length lb.
             DDesign_bounds n lb ! (i * length lb + k) = lb ! k
           \<and> DDesign_bounds n ub ! (i * length lb + k) = ub ! k"
  proof (intro allI impI conjI)
    fix i k assume ik: "i < n" "k < length lb"
    show "DDesign_bounds n lb ! (i * length lb + k) = lb ! k"
      by (rule nth_DDesign_bounds [OF ik])
    from ik have "k < length ub" by (simp only: assms)
    from nth_DDesign_bounds [OF ik(1) this]
    show "DDesign_bounds n ub ! (i * length lb + k) = ub ! k"
      by (simp only: assms)
  qed
  have resh: "\<forall>v. length v = n * length lb \<longrightarrow>
             (\<exists>X. reshape v n (length lb) = Inr X \<and> nrows X = n \<and> ncols X = length lb
                \<and> (\<forall>i<n. \<forall>k<length lb. row X i ! k = v ! (i * length lb + k)))"
  proof (intro allI impI)
    fix v :: "real list" assume v: "length v = n * length lb"
    let ?X = "\<lparr>nrows = n, ncols = length lb, buffer = v\<rparr>"
    have w: "well_shaped ?X" using v by (simp add: well_shaped_def)
    have nth: "\<forall>i<n. \<forall>k<length lb. row ?X i ! k = v ! (i * length lb + k)"
    proof (intro allI impI)
      fix i k assume "i < n" "k < length lb"
      then show "row ?X i ! k = v ! (i * length lb + k)"
        using row_nth [OF w, of i k] by simp
    qed
    have "nrows ?X = n" "ncols ?X = length lb" by simp_all
    with reshape_Inr [OF v] nth
    show "\<exists>X. reshape v n (length lb) = Inr X \<and> nrows X = n \<and> ncols X = length lb
                \<and> (\<forall>i<n. \<forall>k<length lb. row X i ! k = v ! (i * length lb + k))"
      by blast
  qed
  have D: "DDesign n lb ub theta sm mz (Some P) =
           bind_err (mz (DDesign_function n lb theta sm P) (DDesign_bounds n lb) (DDesign_bounds n ub))
             (\<lambda>v. bind_err (reshape v n (length lb)) (concatenate P))"
    by (simp add: DDesign_def)
  have PP: "PointPredictionDesign lb ub mz pf alpha =
           bind_err (mz (PointPredictionDesign_function pf alpha)
                       (DDesign_bounds 1 lb) (DDesign_bounds 1 ub))
             (\<lambda>v. reshape v 1 (length lb))"
    by (simp add: PointPredictionDesign_def DDesign_bounds_def)
  from lenl lenu bounds resh D PP show ?thesis
    by (intro conjI)
qed

theorem design_vector_bounds_and_reshape_witness:
  "length (DDesign_bounds 2 [0, 1]) = 2 * length [0, 1 :: real]
   \<and> length (DDesign_bounds 2 [10, 11]) = 2 * length [0, 1 :: real]
   \<and> DDesign_bounds 2 [0, 1] ! (1 * length [0, 1 :: real] + 1) = [0, 1] ! 1
   \<and> DDesign_bounds 2 [10, 11] ! (1 * length [0, 1 :: real] + 1) = [10, 11] ! 1
   \<and> (\<exists>X. reshape [1, 2, 3, 4] 2 (length [0, 1 :: real]) = Inr X \<and> nrows X = 2 \<and> ncols X = 2
          \<and> row X 1 ! 0 = [1, 2, 3, 4] ! (1 * length [0, 1 :: real] + 0))"
proof -
  have h: "length [10, 11 :: real] = length [0, 1 :: real]" by simp
  have i: "(1 :: nat) < 2" "1 < length [0, 1 :: real]" "0 < length [0, 1 :: real]"
    and v: "length [1, 2, 3, 4 :: real] = 2 * length [0, 1 :: real]"
    by simp_all
  note t = design_vector_bounds_and_reshape [OF h, of 2]
  from t i have b: "DDesign_bounds 2 [0, 1] ! (1 * length [0, 1 :: real] + 1) = [0, 1] ! 1
         \<and> DDesign_bounds 2 [10, 11] ! (1 * length [0, 1 :: real] + 1) = [10, 11] ! 1"
    by blast
  from t v have "\<exists>X. reshape [1, 2, 3, 4] 2 (length [0, 1 :: real]) = Inr X \<and> nrows X = 2
          \<and> ncols X = length [0, 1 :: real]
          \<and> (\<forall>i<2. \<forall>k<length [0, 1 :: real].
                row X i ! k = [1, 2, 3, 4] ! (i * length [0, 1 :: real] + k))"
    by blast
  with i have r: "\<exists>X. reshape [1, 2, 3, 4] 2 (length [0, 1 :: real]) = Inr X \<and> nrows X = 2
          \<and> ncols X = 2
          \<and> row X 1 ! 0 = [1, 2, 3, 4] ! (1 * length [0, 1 :: real] + 0)"
    by fastforce
  from t b r show ?thesis by blast
qed

subsection \<open>The objective of the point prediction design\<close>

text \<open>
  Claim C5. For every \<open>alpha\<close> and every parametric function with uncertainty, the
  objective \<^verbatim>\<open>PointPredictionDesign\<close> maximises over one design point \<open>x\<close> is the
  spread \<open>quantile(x, alpha) - quantile(x, 1 - alpha)\<close>, summed over the output components
  (both quantiles have the components of the output), and the constructor hands the
  negated spread to the minimizer, together with the design bounds.
\<close>

theorem PointPredictionDesign_minimizes_the_negated_spread:
  assumes upper: "calculate_quantile pf x alpha = Inr upper"
    and lower: "calculate_quantile pf x (1 - alpha) = Inr lower"
    and len: "length upper = length lower"
  shows "PointPredictionDesign_function pf alpha x
           = Inr (- (\<Sum>i<length upper. upper ! i - lower ! i))
       \<and> PointPredictionDesign lb ub mz pf alpha
           = bind_err (mz (PointPredictionDesign_function pf alpha) lb ub)
               (\<lambda>minimum. reshape minimum 1 (length lb))"
proof -
  have "subtract upper lower = Inr (map2 (\<lambda>u v. u - v) upper lower)"
    using len by (simp add: subtract_def)
  then have "PointPredictionDesign_function pf alpha x
           = Inr (- sum_list (map2 (\<lambda>u v. u - v) upper lower))"
    by (simp add: PointPredictionDesign_function_def upper lower)
  then show ?thesis
    by (simp add: sum_list_map2_minus [OF len] PointPredictionDesign_def)
qed

theorem PointPredictionDesign_minimizes_the_negated_spread_witness:
  "PointPredictionDesign_function
      \<lparr>calculate_quantile = (\<lambda>x a. Inr [a * sum_list x, a])\<rparr> (9 / 10) [2, 3]
     = Inr (- (24 / 5))
   \<and> PointPredictionDesign [0, 0] [10, 10] (\<lambda>f lo hi. Inr hi)
        \<lparr>calculate_quantile = (\<lambda>x a. Inr [a * sum_list x, a])\<rparr> (9 / 10)
     = Inr \<lparr>nrows = 1, ncols = 2, buffer = [10, 10]\<rparr>"
proof -
  let ?pf = "\<lparr>calculate_quantile =
               (\<lambda>x a. Inr [a * sum_list x, a]) :: real list \<Rightarrow> real \<Rightarrow> error + real list\<rparr>"
  let ?mz = "(\<lambda>f lo hi. Inr hi) :: Minimizer"
  have upper: "calculate_quantile ?pf [2, 3] (9 / 10) = Inr [9 / 2, 9 / 10]"
    and lower: "calculate_quantile ?pf [2, 3] (1 - 9 / 10) = Inr [1 / 2, 1 / 10]"
    and len: "length [9 / 2, 9 / 10 :: real] = length [1 / 2, 1 / 10 :: real]"
    by simp_all
  have s: "(\<Sum>i<length [9 / 2, 9 / 10 :: real]. [9 / 2, 9 / 10] ! i - [1 / 2, 1 / 10 :: real] ! i) = 24 / 5"
    by (simp add: lessThan_Suc)
  from PointPredictionDesign_minimizes_the_negated_spread
         [where pf = "?pf" and x = "[2, 3]" and alpha = "9 / 10" and lb = "[0, 0]"
            and ub = "[10, 10]" and mz = "?mz", OF upper lower len]
  show ?thesis
    by (simp only: s) (simp add: reshape_def)
qed

subsection \<open>The point prediction design is one point within the bounds\<close>

text \<open>
  Claim C6. Every experiment \<^verbatim>\<open>PointPredictionDesign\<close> builds has exactly one row,
  of shape \<open>1 \<times> d\<close> with \<open>d = len(lower_bounds_design)\<close>; and when the minimizer returns
  a vector of \<open>d\<close> entries within the given bounds, the experiment is built and its single
  row is that vector, componentwise within
  \<open>[lower_bounds_design, upper_bounds_design]\<close>.
\<close>

theorem PointPredictionDesign_one_row_within_bounds:
  "(\<forall>D. PointPredictionDesign lb ub mz pf alpha = Inr D \<longrightarrow>
      nrows D = 1 \<and> ncols D = length lb \<and> well_shaped D \<and> rows D = [buffer D])
   \<and> (\<forall>v. mz (PointPredictionDesign_function pf alpha) lb ub = Inr v
          \<and> length v = length lb
          \<and> (\<forall>k<length lb. lb ! k \<le> v ! k \<and> v ! k \<le> ub ! k) \<longrightarrow>
        (\<exists>D. PointPredictionDesign lb ub mz pf alpha = Inr D \<and> rows D = [v]
           \<and> (\<forall>r \<in> set (rows D). length r = length lb
                 \<and> (\<forall>k<length lb. lb ! k \<le> r ! k \<and> r ! k \<le> ub ! k))))"
proof (intro conjI allI impI)
  fix D assume D: "PointPredictionDesign lb ub mz pf alpha = Inr D"
  then obtain v where v: "mz (PointPredictionDesign_function pf alpha) lb ub = Inr v"
    and r: "reshape v 1 (length lb) = Inr D"
    by (cases "mz (PointPredictionDesign_function pf alpha) lb ub")
       (simp_all add: PointPredictionDesign_def)
  from r have len: "length v = length lb" and Deq: "D = \<lparr>nrows = 1, ncols = length lb, buffer = v\<rparr>"
    by (simp_all add: reshape_def split: if_splits)
  show "nrows D = 1" "ncols D = length lb" by (simp_all add: Deq)
  show "well_shaped D" by (simp add: Deq well_shaped_def len)
  show "rows D = [buffer D]" using rows_single [OF len] by (simp add: Deq)
next
  fix v
  assume a: "mz (PointPredictionDesign_function pf alpha) lb ub = Inr v
          \<and> length v = length lb
          \<and> (\<forall>k<length lb. lb ! k \<le> v ! k \<and> v ! k \<le> ub ! k)"
  let ?D = "\<lparr>nrows = 1, ncols = length lb, buffer = v\<rparr>"
  from a have D: "PointPredictionDesign lb ub mz pf alpha = Inr ?D"
    by (simp add: PointPredictionDesign_def reshape_def)
  from a have rws: "rows ?D = [v]" by (intro rows_single) simp
  from a have "\<forall>r \<in> set (rows ?D). length r = length lb
                 \<and> (\<forall>k<length lb. lb ! k \<le> r ! k \<and> r ! k \<le> ub ! k)"
    by (simp only: rws) simp
  with D rws
  show "\<exists>D. PointPredictionDesign lb ub mz pf alpha = Inr D \<and> rows D = [v]
           \<and> (\<forall>r \<in> set (rows D). length r = length lb
                 \<and> (\<forall>k<length lb. lb ! k \<le> r ! k \<and> r ! k \<le> ub ! k))"
    by blast
qed

theorem PointPredictionDesign_one_row_within_bounds_witness:
  "\<exists>D. PointPredictionDesign [0, 0] [10, 10] (\<lambda>f lo hi. Inr hi)
          \<lparr>calculate_quantile = (\<lambda>x a. Inr [a * sum_list x, a])\<rparr> (9 / 10) = Inr D
      \<and> nrows D = 1 \<and> ncols D = length [0, 0 :: real] \<and> well_shaped D
      \<and> rows D = [[10, 10]]
      \<and> length (hd (rows D)) = 2
      \<and> [0, 0] ! 1 \<le> hd (rows D) ! 1 \<and> hd (rows D) ! 1 \<le> [10, 10 :: real] ! 1"
proof -
  let ?pf = "\<lparr>calculate_quantile =
               (\<lambda>x a. Inr [a * sum_list x, a]) :: real list \<Rightarrow> real \<Rightarrow> error + real list\<rparr>"
  let ?mz = "(\<lambda>f lo hi. Inr hi) :: Minimizer"
  note t = PointPredictionDesign_one_row_within_bounds
             [where lb = "[0, 0]" and ub = "[10, 10]" and mz = "?mz" and pf = "?pf"
                and alpha = "9 / 10"]
  have pre: "?mz (PointPredictionDesign_function ?pf (9 / 10)) [0, 0] [10, 10] = Inr [10, 10]
          \<and> length [10, 10 :: real] = length [0, 0 :: real]
          \<and> (\<forall>k<length [0, 0 :: real]. [0, 0] ! k \<le> [10, 10 :: real] ! k
                 \<and> [10, 10] ! k \<le> [10, 10 :: real] ! k)"
    by (simp add: less_Suc_eq)
  from t pre obtain D where D: "PointPredictionDesign [0, 0] [10, 10] ?mz ?pf (9 / 10) = Inr D"
    and rws: "rows D = [[10, 10]]"
    by blast
  from t D have shape: "nrows D = 1" "ncols D = length [0, 0 :: real]" "well_shaped D"
    by blast+
  from D shape rws show ?thesis by simp
qed

subsection \<open>The standard deviation of the parameter estimations\<close>

lemma sum_list_squares_nonneg: "0 \<le> (\<Sum>x\<leftarrow>xs. (x - m)\<^sup>2 :: real)"
  by (rule sum_list_nonneg) auto

lemma StdParameterEstimations_calculate_general:
  assumes "2 \<le> length xs"
  shows "\<exists>s. StdParameterEstimations_calculate xs = Some s \<and> 0 \<le> s
           \<and> s\<^sup>2 * (real (length xs) - 1) = (\<Sum>x\<leftarrow>xs. (x - mean xs)\<^sup>2)"
proof -
  let ?S = "\<Sum>x\<leftarrow>xs. (x - mean xs)\<^sup>2"
  let ?s = "sqrt (?S / (real (length xs) - 1))"
  have pos: "0 < real (length xs) - 1" using assms by simp
  have nn: "0 \<le> ?S / (real (length xs) - 1)"
    using pos sum_list_squares_nonneg [where xs = xs and m = "mean xs"] by simp
  have "StdParameterEstimations_calculate xs = Some ?s"
    using assms by (simp add: StdParameterEstimations_calculate_def)
  moreover have "0 \<le> ?s" using nn by simp
  moreover have "?s\<^sup>2 * (real (length xs) - 1) = ?S"
    using pos nn by (simp add: real_sqrt_pow2)
  ultimately show ?thesis by blast
qed

lemma population_deviation_outside_tolerance:
  "\<not> \<bar>sqrt (6 / 5) - sqrt (6 / 6)\<bar> \<le> 1 / 100000"
proof -
  have "(109 / 100 :: real)\<^sup>2 \<le> 6 / 5" by (simp add: power2_eq_square)
  then have "109 / 100 \<le> sqrt (6 / 5)" by (rule real_le_rsqrt)
  then show ?thesis by simp
qed

text \<open>
  Claim C8. \<^verbatim>\<open>StdParameterEstimations.calculate\<close> returns the sample standard
  deviation with the Bessel-corrected denominator \<open>n - 1\<close>: for every vector of \<open>n \<ge> 2\<close>
  estimations the result is the non-negative number whose square times \<open>n - 1\<close> is the
  sum of the squared deviations from the mean. Applied to the sample vector
  \<open>[0, 0, 0, 2, 2, 2]\<close> of the test it returns \<open>sqrt(6/5)\<close>, within the absolute
  tolerance \<open>1e-5\<close>: the mean is 1, the six squared deviations sum to 6, and the
  denominator is \<open>n - 1 = 5\<close>. The denominator \<open>n\<close> would give \<open>sqrt(6/6) = 1\<close> there,
  which is outside the tolerance, so the test tells the two apart.
\<close>

theorem StdParameterEstimations_is_the_sample_standard_deviation:
  "(\<forall>xs. 2 \<le> length xs \<longrightarrow>
      (\<exists>s. StdParameterEstimations_calculate xs = Some s \<and> 0 \<le> s
         \<and> s\<^sup>2 * (real (length xs) - 1) = (\<Sum>x\<leftarrow>xs. (x - mean xs)\<^sup>2)))
   \<and> (\<exists>s. StdParameterEstimations_calculate [0, 0, 0, 2, 2, 2] = Some s
         \<and> s = sqrt (6 / 5) \<and> \<bar>sqrt (6 / 5) - s\<bar> \<le> 1 / 100000)
   \<and> \<not> \<bar>sqrt (6 / 5) - sqrt (6 / 6)\<bar> \<le> 1 / 100000"
proof (intro conjI allI impI)
  fix xs :: "real list" assume "2 \<le> length xs"
  then show "\<exists>s. StdParameterEstimations_calculate xs = Some s \<and> 0 \<le> s
         \<and> s\<^sup>2 * (real (length xs) - 1) = (\<Sum>x\<leftarrow>xs. (x - mean xs)\<^sup>2)"
    by (rule StdParameterEstimations_calculate_general)
next
  show "\<exists>s. StdParameterEstimations_calculate [0, 0, 0, 2, 2, 2] = Some s
         \<and> s = sqrt (6 / 5) \<and> \<bar>sqrt (6 / 5) - s\<bar> \<le> 1 / 100000"
    by (simp add: StdParameterEstimations_calculate_def mean_def)
next
  show "\<not> \<bar>sqrt (6 / 5) - sqrt (6 / 6)\<bar> \<le> 1 / 100000"
    by (rule population_deviation_outside_tolerance)
qed

theorem StdParameterEstimations_is_the_sample_standard_deviation_witness:
  "2 \<le> length [1, 2, 3, 4 :: real]
   \<and> (\<exists>s. StdParameterEstimations_calculate [1, 2, 3, 4] = Some s \<and> 0 \<le> s
         \<and> s\<^sup>2 * 3 = 5 \<and> s = sqrt (5 / 3))"
proof -
  have h: "2 \<le> length [1, 2, 3, 4 :: real]" by simp
  have n: "real (length [1, 2, 3, 4 :: real]) - 1 = 3" by simp
  have S: "(\<Sum>x\<leftarrow>[1, 2, 3, 4 :: real]. (x - mean [1, 2, 3, 4])\<^sup>2) = 5"
    by (simp add: mean_def power2_eq_square)
  from StdParameterEstimations_is_the_sample_standard_deviation h
  obtain s where s: "StdParameterEstimations_calculate [1, 2, 3, 4] = Some s" "0 \<le> s"
    "s\<^sup>2 * (real (length [1, 2, 3, 4 :: real]) - 1)
       = (\<Sum>x\<leftarrow>[1, 2, 3, 4 :: real]. (x - mean [1, 2, 3, 4])\<^sup>2)"
    by blast
  from s(3) have sq: "s\<^sup>2 * 3 = 5" by (simp only: n S)
  then have "s\<^sup>2 = 5 / 3" by simp
  with s(2) have "s = sqrt (5 / 3)" by (metis real_sqrt_abs abs_of_nonneg)
  with h s sq show ?thesis by blast
qed

subsection \<open>Determinants of positive semi-definite matrices\<close>

lemma determinant_cong:
  "(\<And>i j. i < n \<Longrightarrow> j < n \<Longrightarrow> A i j = B i j) \<Longrightarrow> determinant n A = determinant n B"
proof (induction n arbitrary: A B)
  case 0
  show ?case by simp
next
  case (Suc n)
  have "(- 1) ^ i * A i 0 * determinant n (drop_column (delete_row i A))
      = (- 1) ^ i * B i 0 * determinant n (drop_column (delete_row i B))" if "i \<le> n" for i
  proof -
    have "A i 0 = B i 0" using that by (intro Suc.prems) simp_all
    moreover have "determinant n (drop_column (delete_row i A))
                 = determinant n (drop_column (delete_row i B))"
      by (rule Suc.IH) (simp add: drop_column_def delete_row_def Suc.prems)
    ultimately show ?thesis by simp
  qed
  then show ?case unfolding determinant.simps by (intro sum.cong refl) simp
qed

lemma delete_row_update_same: "delete_row r (A(r := w)) = delete_row r A"
  by (auto simp: delete_row_def fun_eq_iff)

lemma delete_row_update_lt: "r < i \<Longrightarrow> delete_row i (A(r := w)) = (delete_row i A)(r := w)"
  by (auto simp: delete_row_def fun_eq_iff)

lemma delete_row_update_gt: "i < r \<Longrightarrow> delete_row i (A(r := w)) = (delete_row i A)(r - 1 := w)"
  by (auto simp: delete_row_def fun_eq_iff)

lemma drop_column_update: "drop_column (B(r := w)) = (drop_column B)(r := (\<lambda>c. w (Suc c)))"
  by (auto simp: drop_column_def fun_eq_iff)

lemma determinant_row_linear:
  "r \<le> n \<Longrightarrow>
   determinant (Suc n) (A(r := (\<lambda>c. x * u c + y * v c)))
     = x * determinant (Suc n) (A(r := u)) + y * determinant (Suc n) (A(r := v))"
proof (induction n arbitrary: A r u v)
  case 0
  then show ?case by (simp add: algebra_simps)
next
  case (Suc n)
  let ?w = "\<lambda>c. x * u c + y * v c"
  let ?t = "\<lambda>B i. (- 1) ^ i * B i 0 * determinant (Suc n) (drop_column (delete_row i B))"
  have tm: "?t (A(r := ?w)) i = x * ?t (A(r := u)) i + y * ?t (A(r := v)) i"
    if i: "i \<le> Suc n" for i
  proof -
    consider "i = r" | "r < i" | "i < r" by linarith
    then show ?thesis
    proof cases
      case 1
      then show ?thesis by (simp add: delete_row_update_same algebra_simps)
    next
      case 2
      then have rn: "r \<le> n" using i by simp
      have "determinant (Suc n) ((drop_column (delete_row i A))(r := \<lambda>c. x * u (Suc c) + y * v (Suc c)))
          = x * determinant (Suc n) ((drop_column (delete_row i A))(r := \<lambda>c. u (Suc c)))
          + y * determinant (Suc n) ((drop_column (delete_row i A))(r := \<lambda>c. v (Suc c)))"
        by (rule Suc.IH [OF rn])
      with 2 show ?thesis
        by (simp add: delete_row_update_lt drop_column_update algebra_simps)
    next
      case 3
      then have rn: "r - 1 \<le> n" using Suc.prems by simp
      have "determinant (Suc n) ((drop_column (delete_row i A))(r - 1 := \<lambda>c. x * u (Suc c) + y * v (Suc c)))
          = x * determinant (Suc n) ((drop_column (delete_row i A))(r - 1 := \<lambda>c. u (Suc c)))
          + y * determinant (Suc n) ((drop_column (delete_row i A))(r - 1 := \<lambda>c. v (Suc c)))"
        by (rule Suc.IH [OF rn])
      with 3 show ?thesis
        by (simp add: delete_row_update_gt drop_column_update algebra_simps)
    qed
  qed
  have "determinant (Suc (Suc n)) (A(r := ?w)) = (\<Sum>i\<le>Suc n. ?t (A(r := ?w)) i)"
    by (simp only: determinant.simps)
  also have "\<dots> = (\<Sum>i\<le>Suc n. x * ?t (A(r := u)) i + y * ?t (A(r := v)) i)"
    by (intro sum.cong refl tm) simp
  also have "\<dots> = x * (\<Sum>i\<le>Suc n. ?t (A(r := u)) i) + y * (\<Sum>i\<le>Suc n. ?t (A(r := v)) i)"
    by (simp only: sum.distrib sum_distrib_left)
  finally show ?case by (simp only: determinant.simps)
qed

lemma delete_row_adjacent:
  assumes "A r = A (Suc r)"
  shows "delete_row r A = delete_row (Suc r) A"
  using assms by (auto simp: delete_row_def fun_eq_iff less_Suc_eq)

lemma determinant_adjacent_rows_equal:
  "Suc r \<le> n \<Longrightarrow> A r = A (Suc r) \<Longrightarrow> determinant (Suc n) A = 0"
proof (induction n arbitrary: A r)
  case 0
  then show ?case by simp
next
  case (Suc n)
  let ?t = "\<lambda>i. (- 1) ^ i * A i 0 * determinant (Suc n) (drop_column (delete_row i A))"
  have zero: "?t i = 0" if i: "i \<le> Suc n" "i \<noteq> r" "i \<noteq> Suc r" for i
  proof -
    let ?M = "drop_column (delete_row i A)"
    consider "i < r" | "Suc r < i" using i by linarith
    then have "determinant (Suc n) ?M = 0"
    proof cases
      case 1
      then obtain r' where r': "r = Suc r'" by (cases r) auto
      have "Suc r' \<le> n" using Suc.prems r' by simp
      moreover have "?M r' = ?M (Suc r')"
        using 1 r' Suc.prems(2) by (auto simp: drop_column_def delete_row_def fun_eq_iff)
      ultimately show ?thesis by (rule Suc.IH)
    next
      case 2
      have "Suc r \<le> n" using 2 i by simp
      moreover have "?M r = ?M (Suc r)"
        using 2 Suc.prems(2) by (auto simp: drop_column_def delete_row_def fun_eq_iff)
      ultimately show ?thesis by (rule Suc.IH)
    qed
    then show ?thesis by simp
  qed
  have pair: "?t r + ?t (Suc r) = 0"
    using Suc.prems(2) delete_row_adjacent [OF Suc.prems(2)] by simp
  have "determinant (Suc (Suc n)) A = (\<Sum>i\<le>Suc n. ?t i)"
    by (simp only: determinant.simps)
  also have "\<dots> = (\<Sum>i\<in>{r, Suc r}. ?t i)"
    using Suc.prems(1) zero by (intro sum.mono_neutral_right) auto
  also have "\<dots> = ?t r + ?t (Suc r)" by simp
  finally show ?case using pair by simp
qed

lemma determinant_swap_adjacent:
  assumes "Suc r \<le> n"
  shows "determinant (Suc n) (A(r := A (Suc r), Suc r := A r)) = - determinant (Suc n) A"
proof -
  define u where "u = A r"
  define v where "v = A (Suc r)"
  define D where "D x y = determinant (Suc n) (A(r := x, Suc r := y))" for x y
  let ?s = "\<lambda>c. 1 * u c + 1 * v c"
  have r: "r \<le> n" using assms by simp
  have first: "D ?s y = D u y + D v y" for y
  proof -
    have tw: "A(r := x, Suc r := y) = (A(Suc r := y))(r := x)" for x
      by (rule fun_upd_twist) simp
    show ?thesis
      unfolding D_def tw using determinant_row_linear [OF r, of "A(Suc r := y)" 1 u 1 v]
      by simp
  qed
  have second: "D x ?s = D x u + D x v" for x
    unfolding D_def using determinant_row_linear [OF assms, of "A(r := x)" 1 u 1 v]
    by simp
  have "D ?s ?s = 0"
    unfolding D_def by (rule determinant_adjacent_rows_equal [OF assms]) simp
  moreover have "D u u = 0"
    unfolding D_def by (rule determinant_adjacent_rows_equal [OF assms]) simp
  moreover have "D v v = 0"
    unfolding D_def by (rule determinant_adjacent_rows_equal [OF assms]) simp
  moreover have "D ?s ?s = D u u + D u v + (D v u + D v v)"
    by (simp only: first second)
  ultimately have "D v u = - D u v" by simp
  moreover have "A(r := u, Suc r := v) = A"
    by (simp add: u_def v_def)
  ultimately show ?thesis by (simp add: D_def u_def v_def)
qed

lemma determinant_rows_equal_lt:
  "r < s \<Longrightarrow> s \<le> n \<Longrightarrow> A r = A s \<Longrightarrow> determinant (Suc n) A = 0"
proof (induction s arbitrary: A)
  case 0
  then show ?case by simp
next
  case (Suc s)
  show ?case
  proof (cases "r = s")
    case True
    with Suc.prems show ?thesis by (intro determinant_adjacent_rows_equal [of r n]) simp_all
  next
    case False
    with Suc.prems have rs: "r < s" by simp
    let ?B = "A(s := A (Suc s), Suc s := A s)"
    have sw: "determinant (Suc n) ?B = - determinant (Suc n) A"
      by (rule determinant_swap_adjacent) (use Suc.prems in simp)
    have "determinant (Suc n) ?B = 0"
    proof (rule Suc.IH [OF rs])
      show "s \<le> n" using Suc.prems by simp
      show "?B r = ?B s" using rs Suc.prems by simp
    qed
    with sw show ?thesis by simp
  qed
qed

lemma determinant_rows_equal:
  assumes "r \<noteq> s" "r \<le> n" "s \<le> n" "A r = A s"
  shows "determinant (Suc n) A = 0"
proof (cases "r < s")
  case True
  then show ?thesis using assms by (intro determinant_rows_equal_lt [of r s]) simp_all
next
  case False
  with assms have "s < r" by simp
  then show ?thesis using assms by (intro determinant_rows_equal_lt [of s r]) simp_all
qed

lemma determinant_row_add:
  assumes "r \<noteq> s" "r \<le> n" "s \<le> n"
  shows "determinant (Suc n) (A(r := (\<lambda>c. A r c + k * A s c))) = determinant (Suc n) A"
proof -
  have "determinant (Suc n) (A(r := A s)) = 0"
    by (rule determinant_rows_equal [OF assms]) (use assms in simp)
  moreover have "A(r := A r) = A" by simp
  ultimately show ?thesis
    using determinant_row_linear [OF assms(2), of A 1 "A r" k "A s"] by simp
qed

lemma determinant_eliminate:
  fixes A :: "nat \<Rightarrow> nat \<Rightarrow> real"
  defines "E \<equiv> \<lambda>m r. if 0 < r \<and> r \<le> m then (\<lambda>c. A r c - (A r 0 / A 0 0) * A 0 c) else A r"
  assumes "m \<le> n"
  shows "determinant (Suc n) (E m) = determinant (Suc n) A"
  using assms(2)
proof (induction m)
  case 0
  have "E 0 = A" by (auto simp: E_def fun_eq_iff)
  then show ?case by simp
next
  case (Suc m)
  have step: "E (Suc m) = (E m)(Suc m := (\<lambda>c. E m (Suc m) c + (- (A (Suc m) 0 / A 0 0)) * E m 0 c))"
    by (auto simp: E_def fun_eq_iff)
  have "determinant (Suc n) (E (Suc m)) = determinant (Suc n) (E m)"
    unfolding step by (rule determinant_row_add) (use Suc.prems in simp_all)
  with Suc show ?case by simp
qed

lemma determinant_schur_complement:
  assumes "A 0 0 \<noteq> 0"
  shows "determinant (Suc n) A = A 0 0 * determinant n (schur_complement A)"
proof -
  define E where "E = (\<lambda>r. if 0 < r \<and> r \<le> n then (\<lambda>c. A r c - (A r 0 / A 0 0) * A 0 c) else A r)"
  let ?t = "\<lambda>i. (- 1) ^ i * E i 0 * determinant n (drop_column (delete_row i E))"
  have "determinant (Suc n) A = determinant (Suc n) E"
    unfolding E_def by (rule determinant_eliminate [symmetric]) simp
  also have "\<dots> = (\<Sum>i\<le>n. ?t i)" by (simp only: determinant.simps)
  also have "\<dots> = (\<Sum>i\<in>{0}. ?t i)"
  proof (rule sum.mono_neutral_right)
    show "\<forall>i\<in>{..n} - {0}. ?t i = 0"
      using assms by (auto simp: E_def)
  qed simp_all
  also have "\<dots> = A 0 0 * determinant n (drop_column (delete_row 0 E))"
    by (simp add: E_def)
  also have "determinant n (drop_column (delete_row 0 E)) = determinant n (schur_complement A)"
    by (rule determinant_cong)
       (simp add: drop_column_def delete_row_def E_def schur_complement_def)
  finally show ?thesis .
qed

lemma quadratic_form_Suc:
  assumes sym: "\<And>j. j < n \<Longrightarrow> A (Suc j) 0 = A 0 (Suc j)"
  shows "quadratic_form (Suc n) A v =
           A 0 0 * (v 0)\<^sup>2 + 2 * v 0 * (\<Sum>j<n. A 0 (Suc j) * v (Suc j))
           + quadratic_form n (\<lambda>i j. A (Suc i) (Suc j)) (\<lambda>i. v (Suc i))"
proof -
  let ?f = "\<lambda>i j. v i * A i j * v j"
  have "quadratic_form (Suc n) A v
      = (\<Sum>j<Suc n. ?f 0 j) + (\<Sum>i<n. \<Sum>j<Suc n. ?f (Suc i) j)"
    unfolding quadratic_form_def by (rule sum.lessThan_Suc_shift)
  also have "(\<Sum>j<Suc n. ?f 0 j) = ?f 0 0 + (\<Sum>j<n. ?f 0 (Suc j))"
    by (rule sum.lessThan_Suc_shift)
  also have "(\<Sum>i<n. \<Sum>j<Suc n. ?f (Suc i) j)
           = (\<Sum>i<n. ?f (Suc i) 0 + (\<Sum>j<n. ?f (Suc i) (Suc j)))"
    by (intro sum.cong refl sum.lessThan_Suc_shift)
  also have "\<dots> = (\<Sum>i<n. ?f (Suc i) 0) + (\<Sum>i<n. \<Sum>j<n. ?f (Suc i) (Suc j))"
    by (rule sum.distrib)
  also have "(\<Sum>i<n. ?f (Suc i) 0) = (\<Sum>j<n. ?f 0 (Suc j))"
    by (intro sum.cong refl) (simp add: sym)
  also have "(\<Sum>j<n. ?f 0 (Suc j)) = v 0 * (\<Sum>j<n. A 0 (Suc j) * v (Suc j))"
    by (simp add: sum_distrib_left mult.assoc)
  finally show ?thesis
    by (simp add: quadratic_form_def power2_eq_square algebra_simps)
qed

lemma quadratic_form_schur_complement:
  assumes sym: "\<And>j. j < n \<Longrightarrow> A (Suc j) 0 = A 0 (Suc j)"
  shows "quadratic_form n (schur_complement A) w =
           quadratic_form n (\<lambda>i j. A (Suc i) (Suc j)) w
           - (\<Sum>j<n. A 0 (Suc j) * w j)\<^sup>2 / A 0 0"
proof -
  let ?c = "\<Sum>j<n. A 0 (Suc j) * w j"
  have "quadratic_form n (schur_complement A) w
      = (\<Sum>i<n. \<Sum>j<n. w i * A (Suc i) (Suc j) * w j
                         - (A 0 (Suc i) * w i) * (A 0 (Suc j) * w j) / A 0 0)"
    unfolding quadratic_form_def schur_complement_def
    by (intro sum.cong refl) (simp add: sym algebra_simps diff_divide_distrib)
  also have "\<dots> = quadratic_form n (\<lambda>i j. A (Suc i) (Suc j)) w
                   - (\<Sum>i<n. \<Sum>j<n. (A 0 (Suc i) * w i) * (A 0 (Suc j) * w j) / A 0 0)"
    by (simp add: quadratic_form_def sum_subtractf)
  also have "(\<Sum>i<n. \<Sum>j<n. (A 0 (Suc i) * w i) * (A 0 (Suc j) * w j) / A 0 0)
           = (\<Sum>i<n. \<Sum>j<n. (A 0 (Suc i) * w i) * (A 0 (Suc j) * w j)) / A 0 0"
    by (simp add: sum_divide_distrib)
  also have "(\<Sum>i<n. \<Sum>j<n. (A 0 (Suc i) * w i) * (A 0 (Suc j) * w j)) = ?c * ?c"
    by (rule sum_product [symmetric])
  finally show ?thesis by (simp add: power2_eq_square)
qed

lemma quadratic_form_complete_square:
  assumes sym: "\<And>j. j < n \<Longrightarrow> A (Suc j) 0 = A 0 (Suc j)" and a: "A 0 0 \<noteq> 0"
  shows "quadratic_form (Suc n) A v =
           A 0 0 * (v 0 + (\<Sum>j<n. A 0 (Suc j) * v (Suc j)) / A 0 0)\<^sup>2
           + quadratic_form n (schur_complement A) (\<lambda>i. v (Suc i))"
proof -
  define c where "c = (\<Sum>j<n. A 0 (Suc j) * v (Suc j))"
  define q where "q = quadratic_form n (\<lambda>i j. A (Suc i) (Suc j)) (\<lambda>i. v (Suc i))"
  have 1: "quadratic_form (Suc n) A v = A 0 0 * (v 0)\<^sup>2 + 2 * v 0 * c + q"
    unfolding c_def q_def by (rule quadratic_form_Suc [OF sym])
  have 2: "quadratic_form n (schur_complement A) (\<lambda>i. v (Suc i)) = q - c\<^sup>2 / A 0 0"
    unfolding c_def q_def by (rule quadratic_form_schur_complement [OF sym])
  have "A 0 0 * (v 0 + c / A 0 0)\<^sup>2 = A 0 0 * (v 0)\<^sup>2 + 2 * v 0 * c + c\<^sup>2 / A 0 0"
    using a by (simp add: power2_eq_square field_simps)
  with 1 2 show ?thesis unfolding c_def [symmetric] by simp
qed

lemma psd_sym0:
  assumes "positive_semidefinite (Suc n) A" "j < n"
  shows "A (Suc j) 0 = A 0 (Suc j)"
  using assms by (simp add: positive_semidefinite_def)

lemma psd_nonneg: "positive_semidefinite n A \<Longrightarrow> 0 \<le> quadratic_form n A v"
  by (simp add: positive_semidefinite_def)

lemma quadratic_form_zero [simp]: "quadratic_form n A (\<lambda>i. 0) = 0"
  by (simp add: quadratic_form_def)

lemma sum_unit_vector:
  fixes f :: "nat \<Rightarrow> real"
  assumes "j < n"
  shows "(\<Sum>k<n. f k * (if k = j then 1 else 0)) = f j"
proof -
  have "(\<Sum>k<n. f k * (if k = j then 1 else 0)) = (\<Sum>k<n. if k = j then f k else 0)"
    by (intro sum.cong refl) simp
  also have "\<dots> = f j" using assms by (simp add: sum.delta)
  finally show ?thesis .
qed

lemma quadratic_form_unit:
  assumes "j < n"
  shows "quadratic_form n A (\<lambda>i. if i = j then 1 else 0) = A j j"
proof -
  have "quadratic_form n A (\<lambda>i. if i = j then 1 else 0)
      = (\<Sum>i<n. (\<Sum>k<n. A i k * (if k = j then 1 else 0)) * (if i = j then 1 else 0))"
    unfolding quadratic_form_def by (intro sum.cong refl) (simp add: sum_distrib_left)
  also have "\<dots> = (\<Sum>k<n. A j k * (if k = j then 1 else 0))"
    by (rule sum_unit_vector [OF assms])
  also have "\<dots> = A j j" by (rule sum_unit_vector [OF assms])
  finally show ?thesis .
qed

lemma psd_corner_nonneg:
  assumes "positive_semidefinite (Suc n) A"
  shows "0 \<le> A 0 0"
  using psd_nonneg [OF assms, of "\<lambda>i. if i = 0 then 1 else 0"]
  by (simp add: quadratic_form_unit)

lemma psd_zero_corner_row:
  assumes psd: "positive_semidefinite (Suc n) A" and a: "A 0 0 = 0" and j: "j < n"
  shows "A 0 (Suc j) = 0"
proof (rule ccontr)
  assume b: "A 0 (Suc j) \<noteq> 0"
  define d where "d = A (Suc j) (Suc j)"
  define s where "s = - (d + 1) / (2 * A 0 (Suc j))"
  define v where "v = (\<lambda>i. case i of 0 \<Rightarrow> s | Suc k \<Rightarrow> (if k = j then 1 else 0 :: real))"
  have c: "(\<Sum>k<n. A 0 (Suc k) * v (Suc k)) = A 0 (Suc j)"
    using sum_unit_vector [OF j, of "\<lambda>k. A 0 (Suc k)"] by (simp add: v_def)
  have q: "quadratic_form n (\<lambda>i k. A (Suc i) (Suc k)) (\<lambda>i. v (Suc i)) = d"
    using quadratic_form_unit [OF j, of "\<lambda>i k. A (Suc i) (Suc k)"] by (simp add: v_def d_def)
  have "quadratic_form (Suc n) A v = 2 * s * A 0 (Suc j) + d"
    using quadratic_form_Suc [of n A v, OF psd_sym0 [OF psd]]
    by (simp add: a c q) (simp add: v_def)
  also have "\<dots> = - 1" using b by (simp add: s_def field_simps)
  finally show False using psd_nonneg [OF psd, of v] by simp
qed

lemma psd_zero_corner_determinant:
  assumes psd: "positive_semidefinite (Suc n) A" and a: "A 0 0 = 0"
  shows "determinant (Suc n) A = 0"
proof -
  have "A i 0 = 0" if "i \<le> n" for i
  proof (cases i)
    case 0
    then show ?thesis using a by simp
  next
    case (Suc j)
    then have j: "j < n" using that by simp
    show ?thesis
      using psd_zero_corner_row [OF psd a j] psd_sym0 [OF psd j] Suc by simp
  qed
  then show ?thesis by simp
qed

lemma psd_schur_complement:
  assumes psd: "positive_semidefinite (Suc n) A" and a: "0 < A 0 0"
  shows "positive_semidefinite n (schur_complement A)"
  unfolding positive_semidefinite_def
proof (intro conjI allI impI)
  fix i j assume "i < n" "j < n"
  then have "A (Suc i) (Suc j) = A (Suc j) (Suc i)" "A (Suc i) 0 = A 0 (Suc i)"
    "A (Suc j) 0 = A 0 (Suc j)"
    using psd by (simp_all add: positive_semidefinite_def)
  then show "schur_complement A i j = schur_complement A j i"
    by (simp add: schur_complement_def)
next
  fix w :: "nat \<Rightarrow> real"
  define c where "c = (\<Sum>j<n. A 0 (Suc j) * w j)"
  define v where "v = (\<lambda>i. case i of 0 \<Rightarrow> - c / A 0 0 | Suc k \<Rightarrow> w k)"
  have sq: "quadratic_form (Suc n) A v =
           A 0 0 * (v 0 + (\<Sum>j<n. A 0 (Suc j) * v (Suc j)) / A 0 0)\<^sup>2
           + quadratic_form n (schur_complement A) (\<lambda>i. v (Suc i))"
    by (rule quadratic_form_complete_square [OF psd_sym0 [OF psd]]) (use a in simp_all)
  have tl: "(\<lambda>i. v (Suc i)) = w" by (simp add: v_def)
  have z: "v 0 + (\<Sum>j<n. A 0 (Suc j) * v (Suc j)) / A 0 0 = 0"
    by (simp add: v_def c_def)
  have "quadratic_form (Suc n) A v = quadratic_form n (schur_complement A) w"
    unfolding sq z tl by simp
  with psd_nonneg [OF psd, of v] show "0 \<le> quadratic_form n (schur_complement A) w"
    by simp
qed

lemma psd_determinant_nonneg:
  "positive_semidefinite n A \<Longrightarrow> 0 \<le> determinant n A"
proof (induction n arbitrary: A)
  case 0
  show ?case by simp
next
  case (Suc n)
  show ?case
  proof (cases "A 0 0 = 0")
    case True
    then show ?thesis using psd_zero_corner_determinant [OF Suc.prems] by simp
  next
    case False
    with psd_corner_nonneg [OF Suc.prems] have a: "0 < A 0 0" by simp
    have "0 \<le> determinant n (schur_complement A)"
      by (rule Suc.IH [OF psd_schur_complement [OF Suc.prems a]])
    with a show ?thesis
      by (simp only: determinant_schur_complement [of A n, OF False]) simp
  qed
qed

lemma quadratic_form_diff:
  "quadratic_form n (\<lambda>i j. B i j - A i j) v = quadratic_form n B v - quadratic_form n A v"
  by (simp add: quadratic_form_def sum_subtractf algebra_simps)

lemma psd_symmetric:
  "positive_semidefinite n A \<Longrightarrow> i < n \<Longrightarrow> j < n \<Longrightarrow> A i j = A j i"
  by (simp add: positive_semidefinite_def)

lemma psd_schur_complement_mono:
  assumes A: "positive_semidefinite (Suc n) A" and B: "positive_semidefinite (Suc n) B"
    and BA: "positive_semidefinite (Suc n) (\<lambda>i j. B i j - A i j)"
    and a: "0 < A 0 0" and b: "0 < B 0 0"
  shows "positive_semidefinite n (\<lambda>i j. schur_complement B i j - schur_complement A i j)"
  unfolding positive_semidefinite_def
proof (intro conjI allI impI)
  fix i j assume ij: "i < n" "j < n"
  have "schur_complement A i j = schur_complement A j i"
    by (rule psd_symmetric [OF psd_schur_complement [OF A a] ij])
  moreover have "schur_complement B i j = schur_complement B j i"
    by (rule psd_symmetric [OF psd_schur_complement [OF B b] ij])
  ultimately show "schur_complement B i j - schur_complement A i j
                 = schur_complement B j i - schur_complement A j i"
    by simp
next
  fix w :: "nat \<Rightarrow> real"
  define c where "c = (\<Sum>j<n. B 0 (Suc j) * w j)"
  define v where "v = (\<lambda>i. case i of 0 \<Rightarrow> - c / B 0 0 | Suc k \<Rightarrow> w k)"
  have tl: "(\<lambda>i. v (Suc i)) = w" by (simp add: v_def)
  have z: "v 0 + (\<Sum>j<n. B 0 (Suc j) * v (Suc j)) / B 0 0 = 0"
    by (simp add: v_def c_def)
  have sqB: "quadratic_form (Suc n) B v =
           B 0 0 * (v 0 + (\<Sum>j<n. B 0 (Suc j) * v (Suc j)) / B 0 0)\<^sup>2
           + quadratic_form n (schur_complement B) (\<lambda>i. v (Suc i))"
    by (rule quadratic_form_complete_square [OF psd_sym0 [OF B]]) (use b in simp_all)
  have qB: "quadratic_form (Suc n) B v = quadratic_form n (schur_complement B) w"
    unfolding sqB z tl by simp
  have sqA: "quadratic_form (Suc n) A v =
           A 0 0 * (v 0 + (\<Sum>j<n. A 0 (Suc j) * v (Suc j)) / A 0 0)\<^sup>2
           + quadratic_form n (schur_complement A) (\<lambda>i. v (Suc i))"
    by (rule quadratic_form_complete_square [OF psd_sym0 [OF A]]) (use a in simp_all)
  have "0 \<le> A 0 0 * (v 0 + (\<Sum>j<n. A 0 (Suc j) * v (Suc j)) / A 0 0)\<^sup>2"
    using a by simp
  with sqA have qA: "quadratic_form n (schur_complement A) w \<le> quadratic_form (Suc n) A v"
    unfolding tl by linarith
  have "0 \<le> quadratic_form (Suc n) B v - quadratic_form (Suc n) A v"
    using psd_nonneg [OF BA, of v] by (simp only: quadratic_form_diff)
  with qA qB
  show "0 \<le> quadratic_form n (\<lambda>i j. schur_complement B i j - schur_complement A i j) w"
    by (simp add: quadratic_form_diff)
qed

lemma psd_determinant_mono:
  "positive_semidefinite n A \<Longrightarrow> positive_semidefinite n B \<Longrightarrow>
   positive_semidefinite n (\<lambda>i j. B i j - A i j) \<Longrightarrow>
   determinant n A \<le> determinant n B"
proof (induction n arbitrary: A B)
  case 0
  show ?case by simp
next
  case (Suc n)
  note A = Suc.prems(1) and B = Suc.prems(2) and BA = Suc.prems(3)
  show ?case
  proof (cases "A 0 0 = 0")
    case True
    have "determinant (Suc n) A = 0" by (rule psd_zero_corner_determinant [OF A True])
    with psd_determinant_nonneg [OF B] show ?thesis by simp
  next
    case False
    with psd_corner_nonneg [OF A] have a: "0 < A 0 0" by simp
    have ab: "A 0 0 \<le> B 0 0" using psd_corner_nonneg [OF BA] by simp
    with a have b: "0 < B 0 0" by simp
    have IH: "determinant n (schur_complement A) \<le> determinant n (schur_complement B)"
      by (rule Suc.IH [OF psd_schur_complement [OF A a] psd_schur_complement [OF B b]
                          psd_schur_complement_mono [OF A B BA a b]])
    have nn: "0 \<le> determinant n (schur_complement A)"
      by (rule psd_determinant_nonneg [OF psd_schur_complement [OF A a]])
    have "A 0 0 * determinant n (schur_complement A) \<le> B 0 0 * determinant n (schur_complement B)"
      using ab IH nn b by (intro mult_mono) simp_all
    moreover have "determinant (Suc n) A = A 0 0 * determinant n (schur_complement A)"
      using a by (intro determinant_schur_complement) simp
    moreover have "determinant (Suc n) B = B 0 0 * determinant n (schur_complement B)"
      using b by (intro determinant_schur_complement) simp
    ultimately show ?thesis by simp
  qed
qed

lemma quadratic_form_scale:
  "quadratic_form n (\<lambda>i j. c * M i j) v = c * quadratic_form n M v"
  by (simp add: quadratic_form_def sum_distrib_left algebra_simps)

lemma quadratic_form_add:
  "quadratic_form n (\<lambda>i j. M i j + N i j) v = quadratic_form n M v + quadratic_form n N v"
  by (simp add: quadratic_form_def sum.distrib algebra_simps)

lemma quadratic_form_rank_one:
  "quadratic_form n (\<lambda>i j. g i * g j) v = (\<Sum>i<n. v i * g i)\<^sup>2"
proof -
  have "quadratic_form n (\<lambda>i j. g i * g j) v = (\<Sum>i<n. \<Sum>j<n. (v i * g i) * (v j * g j))"
    unfolding quadratic_form_def by (intro sum.cong refl) (simp add: algebra_simps)
  also have "\<dots> = (\<Sum>i<n. v i * g i) * (\<Sum>j<n. v j * g j)"
    by (rule sum_product [symmetric])
  finally show ?thesis by (simp add: power2_eq_square)
qed

lemma quadratic_form_gram_nonneg:
  "0 \<le> quadratic_form n (\<lambda>i j. \<Sum>x\<leftarrow>xs. g x i * g x j) v"
proof (induction xs)
  case Nil
  show ?case by (simp add: quadratic_form_def)
next
  case (Cons x xs)
  have "quadratic_form n (\<lambda>i j. \<Sum>y\<leftarrow>x # xs. g y i * g y j) v
      = quadratic_form n (\<lambda>i j. g x i * g x j) v
        + quadratic_form n (\<lambda>i j. \<Sum>y\<leftarrow>xs. g y i * g y j) v"
    by (simp add: quadratic_form_add)
  with Cons show ?case by (simp add: quadratic_form_rank_one)
qed

lemma psd_fisher_information_matrix:
  "positive_semidefinite n (calculate_fisher_information_matrix sigma pd theta x0)"
  unfolding positive_semidefinite_def
proof (intro conjI allI impI)
  fix i j
  show "calculate_fisher_information_matrix sigma pd theta x0 i j
      = calculate_fisher_information_matrix sigma pd theta x0 j i"
    by (simp add: calculate_fisher_information_matrix_def mult.commute)
next
  fix v
  have "quadratic_form n (calculate_fisher_information_matrix sigma pd theta x0) v
      = (1 / sigma\<^sup>2) * quadratic_form n (\<lambda>i j. \<Sum>x\<leftarrow>rows x0. pd theta x i * pd theta x j) v"
    unfolding calculate_fisher_information_matrix_def by (rule quadratic_form_scale)
  moreover have "0 \<le> quadratic_form n (\<lambda>i j. \<Sum>x\<leftarrow>rows x0. pd theta x i * pd theta x j) v"
    by (rule quadratic_form_gram_nonneg)
  ultimately show "0 \<le> quadratic_form n (calculate_fisher_information_matrix sigma pd theta x0) v"
    by simp
qed

lemma fisher_information_matrix_append:
  assumes "rows D = rows P @ rows X"
  shows "(\<lambda>i j. calculate_fisher_information_matrix sigma pd theta D i j
                 - calculate_fisher_information_matrix sigma pd theta P i j)
         = calculate_fisher_information_matrix sigma pd theta X"
  by (simp add: calculate_fisher_information_matrix_def assms fun_eq_iff algebra_simps)

lemma determinant_fisher_information_matrix_append:
  assumes "rows D = rows P @ rows X"
  shows "determinant n (calculate_fisher_information_matrix sigma pd theta P)
       \<le> determinant n (calculate_fisher_information_matrix sigma pd theta D)"
proof (rule psd_determinant_mono)
  show "positive_semidefinite n (calculate_fisher_information_matrix sigma pd theta P)"
    "positive_semidefinite n (calculate_fisher_information_matrix sigma pd theta D)"
    by (rule psd_fisher_information_matrix)+
  show "positive_semidefinite n
          (\<lambda>i j. calculate_fisher_information_matrix sigma pd theta D i j
                 - calculate_fisher_information_matrix sigma pd theta P i j)"
    unfolding fisher_information_matrix_append [OF assms]
    by (rule psd_fisher_information_matrix)
qed

lemma DDesign_Inr_rows:
  assumes P: "well_shaped P"
    and D: "DDesign n lb ub theta sm mz (Some P) = Inr D"
  shows "\<exists>X. rows D = rows P @ rows X \<and> nrows X = n \<and> ncols X = length lb \<and> well_shaped X"
proof -
  from D obtain v where v: "mz (DDesign_function n lb theta sm P) (DDesign_bounds n lb)
                               (DDesign_bounds n ub) = Inr v"
    and r: "bind_err (reshape v n (length lb)) (concatenate P) = Inr D"
    by (cases "mz (DDesign_function n lb theta sm P) (DDesign_bounds n lb) (DDesign_bounds n ub)")
       (simp_all add: DDesign_def)
  let ?X = "\<lparr>nrows = n, ncols = length lb, buffer = v\<rparr>"
  from r have len: "length v = n * length lb"
    by (cases "length v = n * length lb") (simp_all add: reshape_def)
  with r have cat: "concatenate P ?X = Inr D" by (simp add: reshape_def)
  then have cols: "ncols P = ncols ?X"
    by (cases "ncols P = ncols ?X") (simp_all add: concatenate_def)
  from rows_concatenate [OF P cols] cat have "rows D = rows P @ rows ?X" by simp
  moreover have "well_shaped ?X" using len by (simp add: well_shaped_def)
  ultimately show ?thesis by (intro exI [of _ ?X]) simp
qed

lemma determinant_example_before: "determinant 2 (calculate_fisher_information_matrix 1 (\<lambda>theta x i. x ! i) [1, 1]
          \<lparr>nrows = 1, ncols = 2, buffer = [1, 0]\<rparr>) = 0"
  by (simp add: numeral_2_eq_2 calculate_fisher_information_matrix_def drop_column_def
        delete_row_def rows_def row_def)

lemma determinant_example_after: "determinant 2 (calculate_fisher_information_matrix 1 (\<lambda>theta x i. x ! i) [1, 1]
          \<lparr>nrows = 2, ncols = 2, buffer = [1, 0, 0, 1]\<rparr>) = 1"
  by (simp add: numeral_2_eq_2 calculate_fisher_information_matrix_def drop_column_def
        delete_row_def rows_def row_def)

subsection \<open>Appending points does not decrease the determinant\<close>

text \<open>
  Claim C3. At the fixed \<open>theta\<close>, the determinant of the Fisher information matrix of
  the design \<^verbatim>\<open>DDesign\<close> produces is no smaller than that of the previous experiment
  alone. The Fisher information matrix is a sum over the design points of positive
  semi-definite rank-one terms, so the matrix of the extended design is that of the
  previous experiment plus a positive semi-definite matrix, and the determinant is
  monotone on positive semi-definite matrices: appending any points, whatever the
  minimizer returned, cannot decrease it. In exact arithmetic this needs no assumption of
  conditioning.
\<close>

theorem DDesign_does_not_decrease_the_determinant:
  assumes P: "well_shaped P"
    and D: "DDesign n lb ub theta (GaussianNoiseModel sigma pd) mz (Some P) = Inr D"
  shows "\<exists>before after.
           calculate_determinant_fisher_information_matrix (GaussianNoiseModel sigma pd) theta P
             = Inr before
         \<and> calculate_determinant_fisher_information_matrix (GaussianNoiseModel sigma pd) theta D
             = Inr after
         \<and> before \<le> after"
proof -
  from DDesign_Inr_rows [OF P D] obtain X where "rows D = rows P @ rows X" by blast
  from determinant_fisher_information_matrix_append [OF this]
  show ?thesis by (simp add: GaussianNoiseModel_def)
qed

theorem DDesign_does_not_decrease_the_determinant_witness:
  "DDesign 1 [0, 0] [0, 1] [1, 1] (GaussianNoiseModel 1 (\<lambda>theta x i. x ! i)) (\<lambda>f lo hi. Inr hi)
      (Some \<lparr>nrows = 1, ncols = 2, buffer = [1, 0]\<rparr>)
     = Inr \<lparr>nrows = 2, ncols = 2, buffer = [1, 0, 0, 1]\<rparr>
   \<and> calculate_determinant_fisher_information_matrix
         (GaussianNoiseModel 1 (\<lambda>theta x i. x ! i)) [1, 1]
         \<lparr>nrows = 1, ncols = 2, buffer = [1, 0]\<rparr> = Inr 0
   \<and> calculate_determinant_fisher_information_matrix
         (GaussianNoiseModel 1 (\<lambda>theta x i. x ! i)) [1, 1]
         \<lparr>nrows = 2, ncols = 2, buffer = [1, 0, 0, 1]\<rparr> = Inr 1
   \<and> (\<exists>before after.
         calculate_determinant_fisher_information_matrix
             (GaussianNoiseModel 1 (\<lambda>theta x i. x ! i)) [1, 1]
             \<lparr>nrows = 1, ncols = 2, buffer = [1, 0]\<rparr> = Inr before
       \<and> calculate_determinant_fisher_information_matrix
             (GaussianNoiseModel 1 (\<lambda>theta x i. x ! i)) [1, 1]
             \<lparr>nrows = 2, ncols = 2, buffer = [1, 0, 0, 1]\<rparr> = Inr after
       \<and> before \<le> after)"
proof -
  let ?P = "\<lparr>nrows = 1, ncols = 2, buffer = [1, 0 :: real]\<rparr>"
  let ?D = "\<lparr>nrows = 2, ncols = 2, buffer = [1, 0, 0, 1 :: real]\<rparr>"
  let ?pd = "(\<lambda>theta x i. x ! i) :: real list \<Rightarrow> real list \<Rightarrow> nat \<Rightarrow> real"
  let ?mz = "(\<lambda>f lo hi. Inr hi) :: Minimizer"
  have P: "well_shaped ?P" by (simp add: well_shaped_def)
  have D: "DDesign 1 [0, 0] [0, 1] [1, 1] (GaussianNoiseModel 1 ?pd) ?mz (Some ?P) = Inr ?D"
    by (simp add: DDesign_def DDesign_bounds_def reshape_def concatenate_def)
  have before: "calculate_determinant_fisher_information_matrix (GaussianNoiseModel 1 ?pd)
                  [1, 1] ?P = Inr 0"
    using determinant_example_before by (simp add: GaussianNoiseModel_def numeral_2_eq_2)
  have after: "calculate_determinant_fisher_information_matrix (GaussianNoiseModel 1 ?pd)
                  [1, 1] ?D = Inr 1"
    using determinant_example_after by (simp add: GaussianNoiseModel_def numeral_2_eq_2)
  from DDesign_does_not_decrease_the_determinant
         [where P = "?P" and D = "?D" and n = 1 and lb = "[0, 0]" and ub = "[0, 1]"
            and theta = "[1, 1]" and sigma = 1 and pd = "?pd" and mz = "?mz", OF P D]
       D before after
  show ?thesis by blast
qed

end
